theory Spec2Isabelle
  imports Complex_Main
begin

section \<open>Bounded queue and message buffer (utils/bounded-queue)\<close>

text \<open>
  The queue element type \<open>'a\<close> stands for the defined values of the TypeScript type
  parameter \<open>T\<close>: \<open>Array.prototype.shift\<close> returning \<open>undefined\<close> is the empty-array
  case, modelled by the \<open>[]\<close> branch. Numbers that the source keeps in JavaScript
  \<open>number\<close> fields are integers here (\<open>maxSize\<close>, \<open>maxBytes\<close> and \<open>totalBytes\<close> may be
  negative; \<open>droppedCount\<close> only counts up from zero).
\<close>

datatype dropStrategy = Oldest | Newest | Reject

text \<open>
  \<open>BoundedQueueConfig\<close>: \<open>onDrop\<close> records whether the optional callback is configured.
  The calls made to it are logged in the queue's \<open>onDropCalls\<close> (the callback itself is
  opaque to the queue and is taken not to throw).
\<close>

record BoundedQueueConfig =
  maxSize :: int
  dropStrategy :: dropStrategy
  onDrop :: bool

record 'a BoundedQueue =
  config :: BoundedQueueConfig
  items :: "'a list"
  droppedCount :: nat
  onDropCalls :: "'a list"

text \<open>\<open>new BoundedQueue(config)\<close>.\<close>

definition newBoundedQueue :: "BoundedQueueConfig \<Rightarrow> 'a BoundedQueue" where
  "newBoundedQueue cfg = \<lparr>config = cfg, items = [], droppedCount = 0, onDropCalls = []\<rparr>"

text \<open>\<open>this.config.onDrop?.(x)\<close>.\<close>

definition callOnDrop :: "'a \<Rightarrow> ('a, 'z) BoundedQueue_scheme \<Rightarrow> ('a, 'z) BoundedQueue_scheme" where
  "callOnDrop x q = (if onDrop (config q) then q\<lparr>onDropCalls := onDropCalls q @ [x]\<rparr> else q)"

definition size_q :: "('a, 'z) BoundedQueue_scheme \<Rightarrow> nat" where
  "size_q q = length (items q)"

definition isEmpty :: "('a, 'z) BoundedQueue_scheme \<Rightarrow> bool" where
  "isEmpty q = (length (items q) = 0)"

definition isFull :: "('a, 'z) BoundedQueue_scheme \<Rightarrow> bool" where
  "isFull q = (int (length (items q)) \<ge> maxSize (config q))"

text \<open>
  \<open>BoundedQueue.enqueue\<close>. In the \<open>oldest\<close> branch \<open>shift()\<close> on an empty array gives
  \<open>undefined\<close>: the item is pushed all the same and nothing is counted or reported.
  The \<open>default\<close> branch of the \<open>switch\<close>, which throws on an unknown strategy, has no
  counterpart: the three constructors are all the values of the type.
\<close>

definition enqueue :: "'a \<Rightarrow> ('a, 'z) BoundedQueue_scheme \<Rightarrow> bool \<times> ('a, 'z) BoundedQueue_scheme" where
  "enqueue item q =
     (if int (length (items q)) < maxSize (config q)
      then (True, q\<lparr>items := items q @ [item]\<rparr>)
      else (case dropStrategy (config q) of
              Oldest \<Rightarrow>
                (case items q of
                   [] \<Rightarrow> (True, q\<lparr>items := [item]\<rparr>)
                 | dropped # rest \<Rightarrow>
                     (True, callOnDrop dropped
                              (q\<lparr>items := rest @ [item], droppedCount := droppedCount q + 1\<rparr>)))
            | Newest \<Rightarrow> (False, callOnDrop item (q\<lparr>droppedCount := droppedCount q + 1\<rparr>))
            | Reject \<Rightarrow> (False, q)))"

text \<open>\<open>BoundedQueue.dequeue\<close>: \<open>None\<close> is the \<open>undefined\<close> of an empty queue.\<close>

definition dequeue :: "('a, 'z) BoundedQueue_scheme \<Rightarrow> 'a option \<times> ('a, 'z) BoundedQueue_scheme" where
  "dequeue q = (case items q of [] \<Rightarrow> (None, q) | x # rest \<Rightarrow> (Some x, q\<lparr>items := rest\<rparr>))"

definition peek :: "('a, 'z) BoundedQueue_scheme \<Rightarrow> 'a option" where
  "peek q = (case items q of [] \<Rightarrow> None | x # rest \<Rightarrow> Some x)"

definition clear :: "('a, 'z) BoundedQueue_scheme \<Rightarrow> ('a, 'z) BoundedQueue_scheme" where
  "clear q = q\<lparr>items := []\<rparr>"

definition drain :: "('a, 'z) BoundedQueue_scheme \<Rightarrow> 'a list \<times> ('a, 'z) BoundedQueue_scheme" where
  "drain q = (items q, q\<lparr>items := []\<rparr>)"

definition resetDroppedCount :: "('a, 'z) BoundedQueue_scheme \<Rightarrow> nat \<times> ('a, 'z) BoundedQueue_scheme" where
  "resetDroppedCount q = (droppedCount q, q\<lparr>droppedCount := 0\<rparr>)"

text \<open>The public operations of a \<open>BoundedQueue\<close>, and a run of them from left to right.\<close>

datatype 'a queue_op = Enqueue 'a | Dequeue | Peek | Clear | Drain | ResetDroppedCount

fun queue_step :: "('a, 'z) BoundedQueue_scheme \<Rightarrow> 'a queue_op \<Rightarrow> ('a, 'z) BoundedQueue_scheme" where
  "queue_step q (Enqueue x) = snd (enqueue x q)"
| "queue_step q Dequeue = snd (dequeue q)"
| "queue_step q Peek = q"
| "queue_step q Clear = clear q"
| "queue_step q Drain = snd (drain q)"
| "queue_step q ResetDroppedCount = snd (resetDroppedCount q)"

definition queue_run :: "('a, 'z) BoundedQueue_scheme \<Rightarrow> 'a queue_op list \<Rightarrow> ('a, 'z) BoundedQueue_scheme" where
  "queue_run q ops = foldl queue_step q ops"

subsection \<open>MessageBuffer\<close>

text \<open>
  \<open>class MessageBuffer<T> extends BoundedQueue<T>\<close>: the record extends the base record,
  so the base operations above apply to it unchanged (they are \<open>super.enqueue\<close>,
  \<open>super.dequeue\<close> and \<open>super.clear\<close>). The private \<open>estimateSize\<close>
  (\<open>JSON.stringify(item).length * 2\<close>, or \<open>100\<close> when serialisation throws) is the
  parameter \<open>est\<close> of the operations that use it.
\<close>

record 'a MessageBuffer = "'a BoundedQueue" +
  totalBytes :: int
  maxBytes :: int

text \<open>\<open>new MessageBuffer(config)\<close>; \<open>maxBytes\<close> defaults to \<open>1024 * 1024\<close>.\<close>

definition newMessageBuffer :: "BoundedQueueConfig \<Rightarrow> int option \<Rightarrow> 'a MessageBuffer" where
  "newMessageBuffer cfg mb =
     \<lparr>config = cfg, items = [], droppedCount = 0, onDropCalls = [],
      totalBytes = 0, maxBytes = (case mb of None \<Rightarrow> 1024 * 1024 | Some b \<Rightarrow> b)\<rparr>"

text \<open>\<open>MessageBuffer.dequeue\<close> (the override).\<close>

definition mb_dequeue :: "('a \<Rightarrow> int) \<Rightarrow> 'a MessageBuffer \<Rightarrow> 'a option \<times> 'a MessageBuffer" where
  "mb_dequeue est b =
     (case dequeue b of
        (None, b') \<Rightarrow> (None, b')
      | (Some item, b') \<Rightarrow> (Some item, b'\<lparr>totalBytes := totalBytes b' - est item\<rparr>))"

text \<open>
  The eviction loop of \<open>MessageBuffer.enqueue\<close>:
  \<open>while (!this.isEmpty() && this.totalBytes + itemSize > this.maxBytes)\<close>. The body calls
  \<open>this.dequeue()\<close>, which dispatches to the override above, and then subtracts the size
  of the dropped item itself.
\<close>

function evictLoop :: "('a \<Rightarrow> int) \<Rightarrow> int \<Rightarrow> 'a MessageBuffer \<Rightarrow> 'a MessageBuffer" where
  "evictLoop est itemSize b =
     (if \<not> isEmpty b \<and> totalBytes b + itemSize > maxBytes b
      then (case mb_dequeue est b of
              (None, b') \<Rightarrow> evictLoop est itemSize b'
            | (Some dropped, b') \<Rightarrow>
                evictLoop est itemSize (b'\<lparr>totalBytes := totalBytes b' - est dropped\<rparr>))
      else b)"
  by pat_completeness auto
termination
  by (relation "measure (\<lambda>(est, itemSize, b). length (items b))")
     (auto simp: mb_dequeue_def dequeue_def isEmpty_def split: list.splits)

text \<open>\<open>MessageBuffer.enqueue\<close> (the override).\<close>

definition mb_enqueue :: "('a \<Rightarrow> int) \<Rightarrow> 'a \<Rightarrow> 'a MessageBuffer \<Rightarrow> bool \<times> 'a MessageBuffer" where
  "mb_enqueue est item b =
     (let itemSize = est item;
          b1 = (if totalBytes b + itemSize > maxBytes b \<and> \<not> isEmpty b
                then evictLoop est itemSize b else b);
          (success, b2) = enqueue item b1
      in (success, if success then b2\<lparr>totalBytes := totalBytes b2 + itemSize\<rparr> else b2))"

text \<open>\<open>MessageBuffer.clear\<close> (the override).\<close>

definition mb_clear :: "'a MessageBuffer \<Rightarrow> 'a MessageBuffer" where
  "mb_clear b = (clear b)\<lparr>totalBytes := 0\<rparr>"

datatype 'a buffer_op = BufEnqueue 'a | BufDequeue | BufClear

fun buffer_step :: "('a \<Rightarrow> int) \<Rightarrow> 'a MessageBuffer \<Rightarrow> 'a buffer_op \<Rightarrow> 'a MessageBuffer" where
  "buffer_step est b (BufEnqueue x) = snd (mb_enqueue est x b)"
| "buffer_step est b BufDequeue = snd (mb_dequeue est b)"
| "buffer_step est b BufClear = mb_clear b"

definition buffer_run :: "('a \<Rightarrow> int) \<Rightarrow> 'a MessageBuffer \<Rightarrow> 'a buffer_op list \<Rightarrow> 'a MessageBuffer" where
  "buffer_run est b ops = foldl (buffer_step est) b ops"

text \<open>The sum of the estimator over the items the buffer holds.\<close>

definition heldBytes :: "('a \<Rightarrow> int) \<Rightarrow> 'a MessageBuffer \<Rightarrow> int" where
  "heldBytes est b = sum_list (map est (items b))"

text \<open>
  \<open>JSON.stringify(s).length * 2\<close> for a string \<open>s\<close> of plain ASCII letters: the
  serialisation is \<open>s\<close> between two double quotes.
\<close>

definition estimateSizeString :: "string \<Rightarrow> int" where
  "estimateSizeString s = (int (length s) + 2) * 2"

section \<open>Retry and backoff (utils/retry)\<close>

text \<open>
  JavaScript error objects, by class: a plain \<open>Error\<close>, a \<open>CancellationError\<close>, and the
  two classes of this module with their optional \<open>cause\<close>. A promise may also reject with
  a value that is no \<open>Error\<close> instance; \<open>ThrownValue\<close> carries its \<open>String(...)\<close>.
\<close>

datatype error =
    Error string
  | CancellationError string
  | NonRetryableError string "error option"
  | RetryableError string "error option"

datatype thrown = Thrown error | ThrownValue string

datatype 'a outcome = Resolves 'a | Rejects thrown

datatype 'a settled = Resolved 'a | Rejected error

text \<open>
  \<open>RetryConfig\<close>. \<open>maxAttempts\<close> is a non-negative whole number; the delays and the
  multiplier are real numbers standing for the JavaScript doubles.
\<close>

record RetryConfig =
  maxAttempts :: nat
  initialDelay :: real
  maxDelay :: real
  backoffMultiplier :: real
  jitter :: bool

definition DEFAULT_RETRY_CONFIG :: RetryConfig where
  "DEFAULT_RETRY_CONFIG =
     \<lparr>maxAttempts = 3, initialDelay = 1000, maxDelay = 30000, backoffMultiplier = 2, jitter = True\<rparr>"

text \<open>
  \<open>Partial<RetryConfig>\<close> and the spread \<open>{ ...DEFAULT_RETRY_CONFIG, ...config }\<close>. A
  field is \<open>None\<close> when the key is absent from \<open>config\<close>; a key that is present with the
  value \<open>undefined\<close>, which the spread would copy over the default, is not represented.
\<close>

record PartialRetryConfig =
  p_maxAttempts :: "nat option"
  p_initialDelay :: "real option"
  p_maxDelay :: "real option"
  p_backoffMultiplier :: "real option"
  p_jitter :: "bool option"

definition finalConfig :: "PartialRetryConfig \<Rightarrow> RetryConfig" where
  "finalConfig c =
     \<lparr>maxAttempts = (case p_maxAttempts c of None \<Rightarrow> maxAttempts DEFAULT_RETRY_CONFIG | Some v \<Rightarrow> v),
      initialDelay = (case p_initialDelay c of None \<Rightarrow> initialDelay DEFAULT_RETRY_CONFIG | Some v \<Rightarrow> v),
      maxDelay = (case p_maxDelay c of None \<Rightarrow> maxDelay DEFAULT_RETRY_CONFIG | Some v \<Rightarrow> v),
      backoffMultiplier =
        (case p_backoffMultiplier c of None \<Rightarrow> backoffMultiplier DEFAULT_RETRY_CONFIG | Some v \<Rightarrow> v),
      jitter = (case p_jitter c of None \<Rightarrow> jitter DEFAULT_RETRY_CONFIG | Some v \<Rightarrow> v)\<rparr>"

text \<open>
  \<open>calculateBackoffDelay(attempt, config)\<close>; \<open>rnd\<close> is the value that \<open>Math.random()\<close>
  returns (a number in \<open>[0, 1)\<close>), read only when \<open>jitter\<close> is set. The source
  computes in IEEE double precision: its products round, \<open>Math.pow\<close> overflows to
  \<open>Infinity\<close>, and \<open>0 * Infinity\<close> is \<open>NaN\<close>, which \<open>Math.min\<close> and \<open>Math.max\<close> pass
  on. The definition below is the same expression in exact real arithmetic and agrees
  with the source only where none of that happens. It serves as the duration handed to
  \<open>sleep\<close>, which has no influence on how \<open>withRetry\<close> settles or on which attempts
  call the operation; nothing is proved about its value.
\<close>

definition calculateBackoffDelay :: "nat \<Rightarrow> RetryConfig \<Rightarrow> real \<Rightarrow> real" where
  "calculateBackoffDelay attempt cfg rnd =
     (let delay = initialDelay cfg * backoffMultiplier cfg ^ attempt;
          delay = min delay (maxDelay cfg);
          delay = (if jitter cfg
                   then (let jitterRange = delay * 0.25
                         in delay + (rnd - 0.5) * 2 * jitterRange)
                   else delay)
      in max 0 delay)"

text \<open>
  A cancellation token as \<open>withRetry\<close> sees it. The code reads the token at fixed points:
  the \<open>throwIfCancelled()\<close> before attempt \<open>i\<close> is read number \<open>2 * i\<close>, and the
  \<open>sleep\<close> after attempt \<open>i\<close> (which rejects when the token is already cancelled or is
  cancelled before the timer fires) is read number \<open>2 * i + 1\<close>. A token is the number
  of the first read that finds it cancelled, or \<open>None\<close> when it is never cancelled;
  \<open>cancel()\<close> is irreversible, so every later read finds it cancelled too.
\<close>

type_synonym CancellationToken = "nat option"

definition isCancelledAt :: "CancellationToken option \<Rightarrow> nat \<Rightarrow> bool" where
  "isCancelledAt tok n = (case tok of None \<Rightarrow> False | Some None \<Rightarrow> False | Some (Some c) \<Rightarrow> c \<le> n)"

text \<open>\<open>cancellationToken?.throwIfCancelled()\<close>: the error it throws, if any.\<close>

definition throwIfCancelled :: "CancellationToken option \<Rightarrow> nat \<Rightarrow> error option" where
  "throwIfCancelled tok n =
     (if isCancelledAt tok n then Some (CancellationError ''Operation was cancelled'') else None)"

text \<open>\<open>sleep(ms, cancellationToken)\<close>: the error it rejects with, or \<open>None\<close> when it resolves.\<close>

definition sleep :: "real \<Rightarrow> CancellationToken option \<Rightarrow> nat \<Rightarrow> error option" where
  "sleep ms tok n = (if isCancelledAt tok n then Some (Error ''Operation was cancelled'') else None)"

text \<open>\<open>error instanceof Error ? error : new Error(String(error))\<close>.\<close>

definition toError :: "thrown \<Rightarrow> error" where
  "toError t = (case t of Thrown e \<Rightarrow> e | ThrownValue s \<Rightarrow> Error s)"

text \<open>\<open>error instanceof NonRetryableError\<close>.\<close>

definition isNonRetryable :: "thrown \<Rightarrow> bool" where
  "isNonRetryable t = (case t of Thrown (NonRetryableError m c) \<Rightarrow> True | _ \<Rightarrow> False)"

text \<open>Decimal rendering of a count, as the template literal prints it.\<close>

function showNat :: "nat \<Rightarrow> string" where
  "showNat n = (if n < 10 then [''0123456789'' ! n]
                else showNat (n div 10) @ [''0123456789'' ! (n mod 10)])"
  by pat_completeness auto
termination
  by (relation "measure id") auto

definition exhaustedMessage :: "RetryConfig \<Rightarrow> string" where
  "exhaustedMessage cfg = ''Operation failed after '' @ showNat (maxAttempts cfg) @ '' attempts''"

text \<open>
  The body of the \<open>try\<close> of one attempt: the token check, then the call of the operation.
  \<open>operation k\<close> is how the \<open>k\<close>-th call of the operation (counting from \<open>0\<close>) settles;
  \<open>invoked\<close> lists the attempts in which the operation has been called so far.
\<close>

definition tryAttempt ::
  "(nat \<Rightarrow> 'a outcome) \<Rightarrow> CancellationToken option \<Rightarrow> nat \<Rightarrow> nat list \<Rightarrow> 'a outcome \<times> nat list" where
  "tryAttempt operation tok attempt invoked =
     (case throwIfCancelled tok (2 * attempt) of
        Some e \<Rightarrow> (Rejects (Thrown e), invoked)
      | None \<Rightarrow> (operation (length invoked), invoked @ [attempt]))"

text \<open>
  The \<open>for\<close> loop of \<open>withRetry\<close> from \<open>attempt\<close> on, followed by the final \<open>throw\<close>. The
  result is how the returned promise settles, with the attempts that called the operation.
\<close>

function retryLoop ::
  "(nat \<Rightarrow> 'a outcome) \<Rightarrow> RetryConfig \<Rightarrow> (nat \<Rightarrow> real) \<Rightarrow> CancellationToken option \<Rightarrow>
   nat \<Rightarrow> nat list \<Rightarrow> error option \<Rightarrow> 'a settled \<times> nat list" where
  "retryLoop operation cfg rnd tok attempt invoked lastError =
     (if attempt < maxAttempts cfg
      then (case tryAttempt operation tok attempt invoked of
              (Resolves v, invoked') \<Rightarrow> (Resolved v, invoked')
            | (Rejects t, invoked') \<Rightarrow>
                (case (if isNonRetryable t then Some (toError t) else None) of
                   Some e \<Rightarrow> (Rejected e, invoked')
                 | None \<Rightarrow>
                     if attempt = maxAttempts cfg - 1
                     then (Rejected (RetryableError (exhaustedMessage cfg) (Some (toError t))), invoked')
                     else (case sleep (calculateBackoffDelay attempt cfg (rnd attempt)) tok
                                  (2 * attempt + 1) of
                             Some e \<Rightarrow> (Rejected e, invoked')
                           | None \<Rightarrow>
                               retryLoop operation cfg rnd tok (attempt + 1) invoked'
                                 (Some (toError t)))))
      else (Rejected (RetryableError (exhaustedMessage cfg) lastError), invoked))"
  by pat_completeness auto
termination
  by (relation "measure (\<lambda>(operation, cfg, rnd, tok, attempt, invoked, lastError).
        maxAttempts cfg - attempt)") auto

text \<open>\<open>withRetry(operation, config, cancellationToken)\<close>.\<close>

definition withRetry ::
  "(nat \<Rightarrow> 'a outcome) \<Rightarrow> PartialRetryConfig \<Rightarrow> (nat \<Rightarrow> real) \<Rightarrow> CancellationToken option \<Rightarrow>
   'a settled \<times> nat list" where
  "withRetry operation partialConfig rnd tok =
     retryLoop operation (finalConfig partialConfig) rnd tok 0 [] None"

section \<open>Concurrency limiter (utils/concurrency)\<close>

record ConcurrencyLimiterConfig =
  maxConcurrent :: int
  queueLimit :: int

text \<open>
  \<open>QueuedOperation\<close>: every call of \<open>execute\<close> is given a number, which stands for its
  \<open>operation\<close>, \<open>resolve\<close> and \<open>reject\<close>; \<open>op_token\<close> is the number of its cancellation
  token, if it has one.
\<close>

record QueuedOperation =
  op_id :: nat
  op_token :: "nat option"

text \<open>
  \<open>class ConcurrencyLimiter\<close> with the part of the world it acts on. \<open>running\<close> and
  \<open>queue\<close> are the fields of the class. \<open>nextOp\<close> numbers the calls of \<open>execute\<close>.
  \<open>invokedOps\<close> lists the operations whose function has been called, \<open>inFlight\<close> those of
  them whose promise has not settled yet, and \<open>settlements\<close> the calls of \<open>resolve\<close> and
  \<open>reject\<close> of the promises that \<open>execute\<close> returned. The cancellation tokens are those of
  \<open>CancellationTokenImpl\<close>: \<open>cancelledTokens\<close> holds the tokens whose \<open>isCancelled\<close> is
  set, and \<open>cancelCallbacks\<close> the callbacks that \<open>execute\<close> registered with
  \<open>onCancelled\<close>, each given by its token and the queued operation it closes over.
\<close>

record 'r ConcurrencyLimiter =
  limiterConfig :: ConcurrencyLimiterConfig
  running :: nat
  queue :: "QueuedOperation list"
  nextOp :: nat
  invokedOps :: "nat list"
  inFlight :: "nat list"
  settlements :: "(nat \<times> 'r settled) list"
  cancelledTokens :: "nat list"
  cancelCallbacks :: "(nat \<times> QueuedOperation) list"

definition newConcurrencyLimiter :: "ConcurrencyLimiterConfig \<Rightarrow> 'r ConcurrencyLimiter" where
  "newConcurrencyLimiter cfg =
     \<lparr>limiterConfig = cfg, running = 0, queue = [], nextOp = 0, invokedOps = [], inFlight = [],
      settlements = [], cancelledTokens = [], cancelCallbacks = []\<rparr>"

text \<open>\<open>token?.isCancelled\<close>.\<close>

definition tokenIsCancelled :: "nat option \<Rightarrow> 'r ConcurrencyLimiter \<Rightarrow> bool" where
  "tokenIsCancelled tok s = (case tok of None \<Rightarrow> False | Some k \<Rightarrow> k \<in> set (cancelledTokens s))"

text \<open>A call of \<open>resolve\<close> or \<open>reject\<close> of operation \<open>i\<close>.\<close>

definition settle :: "nat \<Rightarrow> 'r settled \<Rightarrow> 'r ConcurrencyLimiter \<Rightarrow> 'r ConcurrencyLimiter" where
  "settle i r s = s\<lparr>settlements := settlements s @ [(i, r)]\<rparr>"

text \<open>
  \<open>executeImmediate\<close> up to its \<open>await\<close>, and \<open>processQueue\<close>. When the token is already
  cancelled the \<open>finally\<close> block runs at once; otherwise the operation is called and the
  method suspends (the rest of it is \<open>operationSettles\<close> below).
\<close>

function executeImmediate :: "QueuedOperation \<Rightarrow> 'r ConcurrencyLimiter \<Rightarrow> 'r ConcurrencyLimiter"
  and processQueue :: "'r ConcurrencyLimiter \<Rightarrow> 'r ConcurrencyLimiter" where
  "executeImmediate queuedOp s =
     (let s1 = s\<lparr>running := running s + 1\<rparr>
      in if tokenIsCancelled (op_token queuedOp) s1
         then processQueue
                ((settle (op_id queuedOp) (Rejected (CancellationError ''Operation was cancelled'')) s1)
                   \<lparr>running := running s1 - 1\<rparr>)
         else s1\<lparr>invokedOps := invokedOps s1 @ [op_id queuedOp],
                 inFlight := inFlight s1 @ [op_id queuedOp]\<rparr>)"
| "processQueue s =
     (if int (running s) \<ge> maxConcurrent (limiterConfig s) \<or> length (queue s) = 0 then s
      else (case queue s of
              [] \<Rightarrow> s
            | nextOp' # rest \<Rightarrow> executeImmediate nextOp' (s\<lparr>queue := rest\<rparr>)))"
  by pat_completeness auto
termination
  by (relation "measure (\<lambda>x. case x of Inl (q, s) \<Rightarrow> 2 * length (queue s) + 1
                                     | Inr s \<Rightarrow> 2 * length (queue s))")
     (auto simp: settle_def)

text \<open>
  \<open>execute(operation, cancellationToken)\<close>, the executor of the promise it returns.
\<close>

definition execute :: "nat option \<Rightarrow> 'r ConcurrencyLimiter \<Rightarrow> 'r ConcurrencyLimiter" where
  "execute cancellationToken s =
     (let queuedOp = \<lparr>op_id = nextOp s, op_token = cancellationToken\<rparr>;
          s0 = s\<lparr>nextOp := nextOp s + 1\<rparr>
      in if tokenIsCancelled cancellationToken s0
         then settle (op_id queuedOp) (Rejected (CancellationError ''Operation was cancelled'')) s0
         else if int (running s0) < maxConcurrent (limiterConfig s0)
         then executeImmediate queuedOp s0
         else if int (length (queue s0)) \<ge> queueLimit (limiterConfig s0)
         then settle (op_id queuedOp) (Rejected (Error ''Concurrency queue is full'')) s0
         else (let s1 = s0\<lparr>queue := queue s0 @ [queuedOp]\<rparr>
               in case cancellationToken of
                    None \<Rightarrow> s1
                  | Some k \<Rightarrow> s1\<lparr>cancelCallbacks := cancelCallbacks s1 @ [(k, queuedOp)]\<rparr>))"

text \<open>
  The rest of \<open>executeImmediate\<close> after its \<open>await\<close>: the promise of a called operation
  settles, the result is passed on, and the \<open>finally\<close> block runs.
\<close>

definition operationSettles :: "nat \<Rightarrow> 'r outcome \<Rightarrow> 'r ConcurrencyLimiter \<Rightarrow> 'r ConcurrencyLimiter" where
  "operationSettles i out s =
     (if i \<in> set (inFlight s)
      then (let s1 = settle i (case out of Resolves v \<Rightarrow> Resolved v
                                         | Rejects t \<Rightarrow> Rejected (toError t)) s;
                s2 = s1\<lparr>inFlight := removeAll i (inFlight s1)\<rparr>
            in processQueue (s2\<lparr>running := running s2 - 1\<rparr>))
      else s)"

text \<open>
  The callback that \<open>execute\<close> registers for a queued operation:
  \<open>indexOf\<close>, and when found \<open>splice\<close> and \<open>reject(new CancellationError())\<close>.
\<close>

definition cancelCallback :: "'r ConcurrencyLimiter \<Rightarrow> QueuedOperation \<Rightarrow> 'r ConcurrencyLimiter" where
  "cancelCallback s queuedOp =
     (if queuedOp \<in> set (queue s)
      then settle (op_id queuedOp) (Rejected (CancellationError ''Operation was cancelled''))
             (s\<lparr>queue := remove1 queuedOp (queue s)\<rparr>)
      else s)"

text \<open>
  \<open>token.cancel()\<close> for token \<open>k\<close>: nothing when already cancelled; otherwise the flag is
  set, the token's callbacks run in the order of their registration and are dropped.
\<close>

definition cancelToken :: "nat \<Rightarrow> 'r ConcurrencyLimiter \<Rightarrow> 'r ConcurrencyLimiter" where
  "cancelToken k s =
     (if k \<in> set (cancelledTokens s) then s
      else (let s1 = s\<lparr>cancelledTokens := k # cancelledTokens s\<rparr>;
                s2 = foldl cancelCallback s1 (map snd (filter (\<lambda>cb. fst cb = k) (cancelCallbacks s1)))
            in s2\<lparr>cancelCallbacks := filter (\<lambda>cb. fst cb \<noteq> k) (cancelCallbacks s2)\<rparr>))"

datatype 'r limiter_event =
    Execute "nat option"
  | OperationSettles nat "'r outcome"
  | CancelToken nat

fun limiter_step :: "'r ConcurrencyLimiter \<Rightarrow> 'r limiter_event \<Rightarrow> 'r ConcurrencyLimiter" where
  "limiter_step s (Execute tok) = execute tok s"
| "limiter_step s (OperationSettles i out) = operationSettles i out s"
| "limiter_step s (CancelToken k) = cancelToken k s"

definition limiter_run :: "'r ConcurrencyLimiter \<Rightarrow> 'r limiter_event list \<Rightarrow> 'r ConcurrencyLimiter" where
  "limiter_run s evs = foldl limiter_step s evs"

text \<open>
  The well-formedness of a limiter's state, kept by every event: the queued operations are
  distinct, numbered below \<open>nextOp\<close>, not yet called and not yet settled, and each one
  that has a token has its callback registered with that token, which is not cancelled;
  the called and the settled operations are numbered below \<open>nextOp\<close>.
\<close>

definition queuedOk :: "'r ConcurrencyLimiter \<Rightarrow> QueuedOperation \<Rightarrow> bool" where
  "queuedOk s q =
     (op_id q < nextOp s \<and> op_id q \<notin> set (invokedOps s) \<and> op_id q \<notin> fst ` set (settlements s)
      \<and> (case op_token q of
            None \<Rightarrow> True
          | Some k \<Rightarrow> k \<notin> set (cancelledTokens s) \<and> (k, q) \<in> set (cancelCallbacks s)))"

definition limiter_inv :: "'r ConcurrencyLimiter \<Rightarrow> bool" where
  "limiter_inv s =
     (distinct (map op_id (queue s))
      \<and> list_all (queuedOk s) (queue s)
      \<and> list_all (\<lambda>i. i < nextOp s) (invokedOps s)
      \<and> list_all (\<lambda>x. fst x < nextOp s) (settlements s)
      \<and> list_all (\<lambda>i. i \<in> set (invokedOps s)) (inFlight s))"

text \<open>An operation that is numbered, not called and not queued.\<close>

definition dead :: "nat \<Rightarrow> 'r ConcurrencyLimiter \<Rightarrow> bool" where
  "dead i s = (i < nextOp s \<and> i \<notin> set (invokedOps s) \<and> i \<notin> op_id ` set (queue s))"

section \<open>Value smoother (utils/throttle)\<close>

text \<open>
  \<open>class ValueSmoother<T>\<close>. \<open>lastValue\<close> is \<open>None\<close> while the field is \<open>undefined\<close>
  (\<open>'a\<close> stands for the defined values of \<open>T\<close>). Times are milliseconds, as real
  numbers. A pending timer is described by what its callback closes over: the \<open>value\<close>
  argument of the call that scheduled it, and the delay it was scheduled with;
  \<open>window.setTimeout\<close> returns a non-zero handle, so \<open>!this.pendingTimeout\<close> holds
  exactly when the field is \<open>null\<close>.
\<close>

record 'a PendingTimer =
  capturedValue :: 'a
  remainingTime :: real

record 'a ValueSmoother =
  lastValue :: "'a option"
  lastUpdate :: real
  minInterval :: real
  pendingTimeout :: "'a PendingTimer option"

text \<open>\<open>new ValueSmoother(maxHz)\<close>.\<close>

definition newValueSmoother :: "real \<Rightarrow> 'a ValueSmoother" where
  "newValueSmoother maxHz =
     (let cappedHz = max 2 (min 10 maxHz)
      in \<lparr>lastValue = None, lastUpdate = 0, minInterval = 1000 / cappedHz, pendingTimeout = None\<rparr>)"

text \<open>\<open>shouldEmit(value, forceEmit)\<close>, called when \<open>getCurrentTime()\<close> returns \<open>now\<close>.\<close>

definition shouldEmit :: "'a \<Rightarrow> bool \<Rightarrow> real \<Rightarrow> 'a ValueSmoother \<Rightarrow> bool \<times> 'a ValueSmoother" where
  "shouldEmit value forceEmit now s =
     (let timeSinceLastUpdate = now - lastUpdate s
      in if forceEmit \<or> lastValue s = None
         then (True, s\<lparr>lastValue := Some value, lastUpdate := now\<rparr>)
         else if timeSinceLastUpdate \<ge> minInterval s
         then (True, s\<lparr>lastValue := Some value, lastUpdate := now\<rparr>)
         else if pendingTimeout s = None
         then (False, s\<lparr>pendingTimeout :=
                 Some \<lparr>capturedValue = value, remainingTime = minInterval s - timeSinceLastUpdate\<rparr>\<rparr>)
         else (False, s))"

text \<open>The callback passed to \<open>setTimeout\<close>, run when the pending timer fires at time \<open>now\<close>.\<close>

definition timerFires :: "real \<Rightarrow> 'a ValueSmoother \<Rightarrow> 'a ValueSmoother" where
  "timerFires now s =
     (case pendingTimeout s of
        None \<Rightarrow> s
      | Some timer \<Rightarrow> s\<lparr>pendingTimeout := None, lastValue := Some (capturedValue timer), lastUpdate := now\<rparr>)"

text \<open>\<open>cancel()\<close>.\<close>

definition cancelPending :: "'a ValueSmoother \<Rightarrow> 'a ValueSmoother" where
  "cancelPending s = s\<lparr>pendingTimeout := None\<rparr>"

definition getLastValue :: "'a ValueSmoother \<Rightarrow> 'a option" where
  "getLastValue s = lastValue s"

section \<open>Worker channel (worker/worker-channel)\<close>

datatype WorkerMessageType = INIT | COMPUTE_PROGRESS | COMPUTE_ETA | SHUTDOWN

text \<open>
  The \<open>data\<close> of a message: \<open>{}\<close>, a \<open>ProgressComputeRequest\<close> (samples and target
  frequency), or the bare samples that \<open>computeETA\<close> sends.
\<close>

datatype WorkerData =
    EmptyObject
  | ProgressRequest "(real \<times> real) list" real
  | SampleList "(real \<times> real) list"

record WorkerMessage =
  msg_type :: WorkerMessageType
  msg_id :: string
  msg_data :: WorkerData

text \<open>
  \<open>class WorkerChannel\<close>. \<open>pendingRequests\<close> lists the ids of the map's entries in
  insertion order. What the methods do to the outside is logged: \<open>posted\<close> holds the
  messages passed to \<open>worker.postMessage\<close>, \<open>rejections\<close> the calls of the pending
  requests' \<open>reject\<close> with their error, \<open>liveTimeouts\<close> the ids whose timeout timer is
  set and not cleared, \<open>terminated\<close> whether \<open>worker.terminate()\<close> was called.
\<close>

record WorkerChannel =
  nextId :: nat
  pendingRequests :: "string list"
  isShutdown :: bool
  posted :: "WorkerMessage list"
  rejections :: "(string \<times> error) list"
  liveTimeouts :: "string list"
  terminated :: bool

text \<open>\<open>new WorkerChannel(workerScript)\<close>.\<close>

definition newWorkerChannel :: WorkerChannel where
  "newWorkerChannel =
     \<lparr>nextId = 1, pendingRequests = [], isShutdown = False, posted = [], rejections = [],
      liveTimeouts = [], terminated = False\<rparr>"

text \<open>
  \<open>sendMessage(type, data, cancellationToken)\<close>. \<open>tokenCancelled\<close> is
  \<open>cancellationToken?.isCancelled\<close> at the call; \<open>post m\<close> is the error that
  \<open>worker.postMessage(m)\<close> throws, if any. The result is \<open>Inl e\<close> when the method throws
  \<open>e\<close> before it creates the request, and \<open>Inr id\<close> when it returns the promise of request
  \<open>id\<close>. The timeout and the cancellation callback that it installs run later, if at
  all; they are not needed here and are left out.
\<close>

definition sendMessage ::
  "(WorkerMessage \<Rightarrow> error option) \<Rightarrow> WorkerMessageType \<Rightarrow> WorkerData \<Rightarrow> bool \<Rightarrow> WorkerChannel \<Rightarrow>
   (error + string) \<times> WorkerChannel" where
  "sendMessage post type' data' tokenCancelled c =
     (if isShutdown c then (Inl (Error ''Worker is shutdown''), c)
      else if tokenCancelled then (Inl (CancellationError ''Operation was cancelled''), c)
      else
        (let id' = showNat (nextId c);
             message = \<lparr>msg_type = type', msg_id = id', msg_data = data'\<rparr>;
             c1 = c\<lparr>nextId := nextId c + 1,
                    liveTimeouts := liveTimeouts c @ [id'],
                    pendingRequests := pendingRequests c @ [id']\<rparr>
         in (case post message of
               None \<Rightarrow> (Inr id', c1\<lparr>posted := posted c1 @ [message]\<rparr>)
             | Some e \<Rightarrow>
                 (Inr id', c1\<lparr>pendingRequests := removeAll id' (pendingRequests c1),
                              liveTimeouts := removeAll id' (liveTimeouts c1),
                              rejections := rejections c1 @ [(id', e)]\<rparr>))))"

text \<open>\<open>initialize()\<close>.\<close>

definition initialize :: "(WorkerMessage \<Rightarrow> error option) \<Rightarrow> WorkerChannel \<Rightarrow> (error + string) \<times> WorkerChannel" where
  "initialize post c = sendMessage post INIT EmptyObject False c"

text \<open>\<open>computeProgress(samples, targetHz, cancellationToken)\<close>.\<close>

definition computeProgress ::
  "(WorkerMessage \<Rightarrow> error option) \<Rightarrow> (real \<times> real) list \<Rightarrow> real \<Rightarrow> bool \<Rightarrow> WorkerChannel \<Rightarrow>
   (error + string) \<times> WorkerChannel" where
  "computeProgress post samples targetHz tokenCancelled c =
     (if isShutdown c then (Inl (Error ''Worker is shutdown''), c)
      else sendMessage post COMPUTE_PROGRESS (ProgressRequest samples targetHz) tokenCancelled c)"

text \<open>\<open>computeETA(samples, cancellationToken)\<close>.\<close>

definition computeETA ::
  "(WorkerMessage \<Rightarrow> error option) \<Rightarrow> (real \<times> real) list \<Rightarrow> bool \<Rightarrow> WorkerChannel \<Rightarrow>
   (error + string) \<times> WorkerChannel" where
  "computeETA post samples tokenCancelled c =
     (if isShutdown c then (Inl (Error ''Worker is shutdown''), c)
      else sendMessage post COMPUTE_ETA (SampleList samples) tokenCancelled c)"

text \<open>
  \<open>shutdown()\<close>. The \<open>try { await this.sendMessage('SHUTDOWN', {}) } catch {}\<close> ignores
  a thrown error and goes on to \<open>worker.terminate()\<close>; had \<open>sendMessage\<close> returned a
  pending request, \<open>terminate()\<close> would wait for it to settle.
\<close>

definition shutdown :: "(WorkerMessage \<Rightarrow> error option) \<Rightarrow> WorkerChannel \<Rightarrow> WorkerChannel" where
  "shutdown post c =
     (if isShutdown c then c
      else
        (let c1 = c\<lparr>isShutdown := True\<rparr>;
             c2 = c1\<lparr>liveTimeouts := filter (\<lambda>i. i \<notin> set (pendingRequests c1)) (liveTimeouts c1),
                     rejections := rejections c1
                        @ map (\<lambda>i. (i, Error ''Worker is shutting down'')) (pendingRequests c1)\<rparr>;
             c3 = c2\<lparr>pendingRequests := []\<rparr>
         in (case sendMessage post SHUTDOWN EmptyObject False c3 of
               (Inl e, c4) \<Rightarrow> c4\<lparr>terminated := True\<rparr>
             | (Inr i, c4) \<Rightarrow> c4)))"

section \<open>WebSocket client (client/ws-client)\<close>

datatype ConnectionState = Disconnected | Connecting | Connected | Reconnecting | Failed

text \<open>
  \<open>WSEnvelope<T>\<close> with the fields that \<open>send\<close> fills in (\<open>v\<close>, \<open>t\<close>, \<open>seq\<close>, \<open>corr\<close>,
  \<open>t_wall\<close>, \<open>data\<close>); the message type is its string.
\<close>

record 'd WSEnvelope =
  env_v :: nat
  env_t :: string
  env_seq :: nat
  env_corr :: "string option"
  env_t_wall :: string
  env_data :: 'd

text \<open>
  The browser's \<open>WebSocket\<close> as the client uses it: a ready state and the frames handed
  to \<open>send\<close>. \<open>WebSocket.send\<close> throws while the socket is still connecting, transmits
  when it is open and discards the frame otherwise.
\<close>

datatype ReadyState = CONNECTING | OPEN | CLOSING | CLOSED

record WebSocket =
  readyState :: ReadyState
  sentFrames :: "string list"

definition ws_send :: "string \<Rightarrow> WebSocket \<Rightarrow> error + WebSocket" where
  "ws_send message w =
     (case readyState w of
        CONNECTING \<Rightarrow> Inl (Error ''InvalidStateError'')
      | OPEN \<Rightarrow> Inr (w\<lparr>sentFrames := sentFrames w @ [message]\<rparr>)
      | CLOSING \<Rightarrow> Inr w
      | CLOSED \<Rightarrow> Inr w)"

record WSClientConfig =
  reconnect :: bool
  maxReconnectAttempts :: nat
  heartbeatInterval :: "nat option"
  maxMessageSize :: "nat option"
  maxBufferSize :: "int option"

text \<open>
  \<open>class WSClient\<close>. \<open>ws = None\<close> is \<open>this.ws === null\<close>; the two timers are reduced to
  whether they are set; \<open>tokenCancelled\<close> is \<open>this.cancellationToken.isCancelled\<close>.
  Two fields are history, not state of the class: \<open>constructed\<close> lists every envelope
  that \<open>send\<close> has built, in order, and \<open>errorsReported\<close> the errors passed to
  \<open>events.onError\<close>.
\<close>

record 'd WSClient =
  wsConfig :: WSClientConfig
  ws :: "WebSocket option"
  state :: ConnectionState
  reconnectAttempt :: nat
  reconnectTimer :: bool
  heartbeatTimer :: bool
  messageBuffer :: "'d WSEnvelope MessageBuffer"
  tokenCancelled :: bool
  lastSeq :: nat
  constructed :: "'d WSEnvelope list"
  errorsReported :: "error list"

text \<open>
  \<open>new WSClient(config, events)\<close>: the buffer holds at most 1000 envelopes and
  \<open>maxBufferSize\<close> bytes, drops the oldest, and has an \<open>onDrop\<close> callback.
\<close>

definition newWSClient :: "WSClientConfig \<Rightarrow> 'd WSClient" where
  "newWSClient cfg =
     \<lparr>wsConfig = cfg, ws = None, state = Disconnected, reconnectAttempt = 0,
      reconnectTimer = False, heartbeatTimer = False,
      messageBuffer = newMessageBuffer \<lparr>maxSize = 1000, dropStrategy = Oldest, onDrop = True\<rparr>
                        (maxBufferSize cfg),
      tokenCancelled = False, lastSeq = 0, constructed = [], errorsReported = []\<rparr>"

text \<open>
  \<open>MessageBuffer.estimateSize\<close> on an envelope, given \<open>JSON.stringify\<close> (\<open>None\<close> when it
  throws).
\<close>

definition estimateSize :: "('d WSEnvelope \<Rightarrow> string option) \<Rightarrow> 'd WSEnvelope \<Rightarrow> int" where
  "estimateSize stringify e = (case stringify e of Some s \<Rightarrow> int (length s) * 2 | None \<Rightarrow> 100)"

text \<open>
  \<open>send(type, data, options)\<close>; \<open>now\<close> is \<open>new Date().toISOString()\<close>. Both branches
  build the envelope with \<open>seq: ++this.lastSeq\<close>.
\<close>

definition send ::
  "('d WSEnvelope \<Rightarrow> string option) \<Rightarrow> string \<Rightarrow> 'd \<Rightarrow> string option \<Rightarrow> string \<Rightarrow> 'd WSClient \<Rightarrow>
   bool \<times> 'd WSClient" where
  "send stringify type' data' correlationId now c =
     (let envelope = \<lparr>env_v = 1, env_t = type', env_seq = lastSeq c + 1, env_corr = correlationId,
                      env_t_wall = now, env_data = data'\<rparr>;
          c1 = c\<lparr>lastSeq := lastSeq c + 1, constructed := constructed c @ [envelope]\<rparr>
      in if state c \<noteq> Connected \<or> ws c = None
         then (case mb_enqueue (estimateSize stringify) envelope (messageBuffer c1) of
                 (success, b) \<Rightarrow> (success, c1\<lparr>messageBuffer := b\<rparr>))
         else (case stringify envelope of
                 None \<Rightarrow> (False, c1\<lparr>errorsReported := errorsReported c1 @ [Error ''TypeError'']\<rparr>)
               | Some message \<Rightarrow>
                   if length message >
                        (case maxMessageSize (wsConfig c1) of None \<Rightarrow> 64 * 1024 | Some n \<Rightarrow> n)
                   then (False, c1\<lparr>errorsReported := errorsReported c1 @ [Error ''Message too large'']\<rparr>)
                   else (case ws c1 of
                           None \<Rightarrow> (False, c1)
                         | Some w \<Rightarrow>
                             (case ws_send message w of
                                Inl e \<Rightarrow> (False, c1\<lparr>errorsReported := errorsReported c1 @ [e]\<rparr>)
                              | Inr w' \<Rightarrow> (True, c1\<lparr>ws := Some w'\<rparr>)))))"

text \<open>\<open>setState(newState)\<close> (the \<open>onStateChange\<close> callback is not modelled).\<close>

definition setState :: "ConnectionState \<Rightarrow> 'd WSClient \<Rightarrow> 'd WSClient" where
  "setState newState c = (if state c \<noteq> newState then c\<lparr>state := newState\<rparr> else c)"

text \<open>
  \<open>flushBufferedMessages()\<close>: every buffered envelope is dequeued; it is sent when the
  socket is open, and a throwing \<open>JSON.stringify\<close> or \<open>send\<close> ends the loop.
\<close>

function flushBufferedMessages :: "('d WSEnvelope \<Rightarrow> string option) \<Rightarrow> 'd WSClient \<Rightarrow> 'd WSClient" where
  "flushBufferedMessages stringify c =
     (if \<not> isEmpty (messageBuffer c)
      then (case mb_dequeue (estimateSize stringify) (messageBuffer c) of
              (None, b) \<Rightarrow> flushBufferedMessages stringify (c\<lparr>messageBuffer := b\<rparr>)
            | (Some message, b) \<Rightarrow>
                (case ws c of
                   None \<Rightarrow> flushBufferedMessages stringify (c\<lparr>messageBuffer := b\<rparr>)
                 | Some w \<Rightarrow>
                     if readyState w = OPEN
                     then (case stringify message of
                             None \<Rightarrow> c\<lparr>messageBuffer := b\<rparr>
                           | Some text' \<Rightarrow>
                               (case ws_send text' w of
                                  Inl e \<Rightarrow> c\<lparr>messageBuffer := b\<rparr>
                                | Inr w' \<Rightarrow>
                                    flushBufferedMessages stringify
                                      (c\<lparr>messageBuffer := b, ws := Some w'\<rparr>)))
                     else flushBufferedMessages stringify (c\<lparr>messageBuffer := b\<rparr>)))
      else c)"
  by pat_completeness auto
termination
  by (relation "measure (\<lambda>(stringify, c). length (items (messageBuffer c)))")
     (auto simp: mb_dequeue_def dequeue_def isEmpty_def split: list.splits)

text \<open>
  \<open>attemptConnection()\<close>, as far as the client's fields go: \<open>this.ws = new WebSocket(url)\<close>.
\<close>

definition attemptConnection :: "'d WSClient \<Rightarrow> 'd WSClient" where
  "attemptConnection c = c\<lparr>ws := Some \<lparr>readyState = CONNECTING, sentFrames = []\<rparr>\<rparr>"

text \<open>
  \<open>connect()\<close> up to its first suspension: the state change, then the first attempt of
  \<open>withRetry\<close>, which calls \<open>attemptConnection\<close> unless the token is cancelled. Left
  out are the later attempts of that \<open>withRetry\<close>, which open further sockets, and the
  case \<open>maxReconnectAttempts = 0\<close>, in which it makes no attempt at all; neither reads
  or writes \<open>lastSeq\<close> or the message buffer.
\<close>

definition connect :: "'d WSClient \<Rightarrow> 'd WSClient" where
  "connect c =
     (if state c = Connected \<or> state c = Connecting then c
      else (let c1 = (setState Connecting c)\<lparr>reconnectAttempt := 0\<rparr>
            in if tokenCancelled c1 then c1 else attemptConnection c1))"

definition stopHeartbeat :: "'d WSClient \<Rightarrow> 'd WSClient" where
  "stopHeartbeat c = (if heartbeatTimer c then c\<lparr>heartbeatTimer := False\<rparr> else c)"

definition startHeartbeat :: "'d WSClient \<Rightarrow> 'd WSClient" where
  "startHeartbeat c =
     (case heartbeatInterval (wsConfig c) of
        None \<Rightarrow> c
      | Some n \<Rightarrow> if n = 0 then c else c\<lparr>heartbeatTimer := True\<rparr>)"

definition clearTimers :: "'d WSClient \<Rightarrow> 'd WSClient" where
  "clearTimers c = stopHeartbeat (if reconnectTimer c then c\<lparr>reconnectTimer := False\<rparr> else c)"

text \<open>\<open>disconnect()\<close>.\<close>

definition disconnect :: "'d WSClient \<Rightarrow> 'd WSClient" where
  "disconnect c =
     (let c1 = clearTimers (c\<lparr>tokenCancelled := True\<rparr>);
          c2 = (case ws c1 of None \<Rightarrow> c1 | Some w \<Rightarrow> c1\<lparr>ws := None\<rparr>)
      in setState Disconnected c2)"

text \<open>The \<open>onopen\<close> handler of the current socket.\<close>

definition onopen :: "('d WSEnvelope \<Rightarrow> string option) \<Rightarrow> 'd WSClient \<Rightarrow> 'd WSClient" where
  "onopen stringify c =
     (let c0 = (case ws c of None \<Rightarrow> c | Some w \<Rightarrow> c\<lparr>ws := Some (w\<lparr>readyState := OPEN\<rparr>)\<rparr>);
          c1 = (setState Connected c0)\<lparr>reconnectAttempt := 0\<rparr>;
          c2 = startHeartbeat c1
      in flushBufferedMessages stringify c2)"

text \<open>\<open>scheduleReconnect()\<close>.\<close>

definition scheduleReconnect :: "'d WSClient \<Rightarrow> 'd WSClient" where
  "scheduleReconnect c =
     (if reconnectTimer c then c
      else if tokenCancelled c then c
      else if state c = Connected \<or> state c = Connecting then c
      else (setState Reconnecting c)\<lparr>reconnectAttempt := reconnectAttempt c + 1,
                                     reconnectTimer := True\<rparr>)"

text \<open>The \<open>onclose\<close> handler of the current socket.\<close>

definition onclose :: "'d WSClient \<Rightarrow> 'd WSClient" where
  "onclose c =
     (let c1 = stopHeartbeat (c\<lparr>ws := None\<rparr>)
      in if tokenCancelled c1 then setState Disconnected c1
         else if reconnect (wsConfig c1) \<and> reconnectAttempt c1 < maxReconnectAttempts (wsConfig c1)
         then scheduleReconnect c1
         else setState Failed c1)"

text \<open>The callback of the reconnect timer.\<close>

definition reconnectTimerFires :: "'d WSClient \<Rightarrow> 'd WSClient" where
  "reconnectTimerFires c =
     (let c1 = c\<lparr>reconnectTimer := False\<rparr>
      in if \<not> tokenCancelled c1 \<and> state c1 = Reconnecting then attemptConnection c1 else c1)"

text \<open>
  What can happen to a client: calls of its public methods, the socket's events, and its
  timers firing (the heartbeat timer calls \<open>send('session.heartbeat', ...)\<close>).
\<close>

datatype 'd ws_event =
    Send string 'd "string option" string
  | Connect
  | Disconnect
  | SocketOpen
  | SocketClose
  | ReconnectTimer
  | HeartbeatTimer 'd string

fun ws_step :: "('d WSEnvelope \<Rightarrow> string option) \<Rightarrow> 'd WSClient \<Rightarrow> 'd ws_event \<Rightarrow> 'd WSClient" where
  "ws_step stringify c (Send type' data' corr now) = snd (send stringify type' data' corr now c)"
| "ws_step stringify c Connect = connect c"
| "ws_step stringify c Disconnect = disconnect c"
| "ws_step stringify c SocketOpen = onopen stringify c"
| "ws_step stringify c SocketClose = onclose c"
| "ws_step stringify c ReconnectTimer = (if reconnectTimer c then reconnectTimerFires c else c)"
| "ws_step stringify c (HeartbeatTimer data' now) =
     (if heartbeatTimer c then snd (send stringify ''session.heartbeat'' data' None now c) else c)"

definition ws_run :: "('d WSEnvelope \<Rightarrow> string option) \<Rightarrow> 'd WSClient \<Rightarrow> 'd ws_event list \<Rightarrow> 'd WSClient" where
  "ws_run stringify c evs = foldl (ws_step stringify) c evs"


text \<open>
  The order of sequence numbers: the constructed envelopes carry strictly increasing
  numbers, none above \<open>lastSeq\<close>.
\<close>

definition seq_ok :: "'d WSClient \<Rightarrow> bool" where
  "seq_ok c = (sorted_wrt (<) (map env_seq (constructed c))
               \<and> list_all (\<lambda>e. env_seq e \<le> lastSeq c) (constructed c))"

section \<open>Verified properties\<close>

subsection \<open>Bounded queue\<close>

lemma items_callOnDrop [simp]: "items (callOnDrop x q) = items q"
  by (simp add: callOnDrop_def)

lemma config_callOnDrop [simp]: "config (callOnDrop x q) = config q"
  by (simp add: callOnDrop_def)

lemma droppedCount_callOnDrop [simp]: "droppedCount (callOnDrop x q) = droppedCount q"
  by (simp add: callOnDrop_def)

lemma config_queue_step [simp]: "config (queue_step q opn) = config q"
  by (cases opn) (simp_all add: enqueue_def dequeue_def clear_def drain_def resetDroppedCount_def
      split: dropStrategy.splits list.splits)

lemma config_queue_run [simp]: "config (queue_run q ops) = config q"
  unfolding queue_run_def by (induction ops arbitrary: q) simp_all

lemma size_queue_step:
  assumes "0 \<le> maxSize (config q)"
    and "dropStrategy (config q) = Oldest \<longrightarrow> 1 \<le> maxSize (config q)"
    and "int (length (items q)) \<le> maxSize (config q)"
  shows "int (length (items (queue_step q opn))) \<le> maxSize (config q)"
  using assms
  by (cases opn) (auto simp: enqueue_def dequeue_def clear_def drain_def resetDroppedCount_def
      split: dropStrategy.splits list.splits)

lemma size_queue_run:
  assumes "0 \<le> maxSize (config q)"
    and "dropStrategy (config q) = Oldest \<longrightarrow> 1 \<le> maxSize (config q)"
    and "int (length (items q)) \<le> maxSize (config q)"
  shows "int (length (items (queue_run q ops))) \<le> maxSize (config q)"
  using assms
proof (induction ops arbitrary: q)
  case Nil
  then show ?case by (simp add: queue_run_def)
next
  case (Cons opn ops)
  have "int (length (items (queue_run (queue_step q opn) ops))) \<le> maxSize (config (queue_step q opn))"
    using Cons.prems size_queue_step[of q opn] by (intro Cons.IH) simp_all
  then show ?case by (simp add: queue_run_def)
qed

text \<open>
  Claim C5, as stated, at \<open>maxSize = 0\<close> with the \<open>oldest\<close> strategy: the first enqueue
  on the fresh (empty, hence already full) queue finds no head to evict, pushes the item,
  returns \<open>true\<close> and leaves \<open>droppedCount\<close> at \<open>0\<close>; the queue then holds one item,
  more than \<open>maxSize\<close>.
\<close>

theorem boundedQueue_zero_capacity_oldest:
  "isFull (newBoundedQueue \<lparr>maxSize = 0, dropStrategy = Oldest, onDrop = True\<rparr> :: nat BoundedQueue)
   \<and> enqueue (7::nat) (newBoundedQueue \<lparr>maxSize = 0, dropStrategy = Oldest, onDrop = True\<rparr>)
       = (True, \<lparr>config = \<lparr>maxSize = 0, dropStrategy = Oldest, onDrop = True\<rparr>,
                 items = [7], droppedCount = 0, onDropCalls = []\<rparr>)
   \<and> \<not> int (size_q (queue_run (newBoundedQueue \<lparr>maxSize = 0, dropStrategy = Oldest, onDrop = True\<rparr>)
                [Enqueue (7::nat)]))
        \<le> maxSize \<lparr>maxSize = 0, dropStrategy = Oldest, onDrop = True\<rparr>"
  by (simp add: isFull_def newBoundedQueue_def enqueue_def queue_run_def size_q_def)

text \<open>
  Claim C5, amended. The queues meant are those of this model: \<open>maxSize\<close> is a whole
  number and no item is the value \<open>undefined\<close>. For such a queue whose \<open>maxSize\<close> is at
  least \<open>0\<close>, and at least \<open>1\<close> under the \<open>oldest\<close> strategy, \<open>size() \<le> maxSize\<close>
  holds after every sequence of operations on a new queue; and an enqueue on a full queue
  behaves per strategy: \<open>oldest\<close> evicts the head, admits the new item at the tail,
  returns \<open>true\<close> and increments \<open>droppedCount\<close>; \<open>newest\<close> keeps the items, returns
  \<open>false\<close> and increments \<open>droppedCount\<close>; \<open>reject\<close> returns \<open>false\<close> and changes
  nothing. Outside these queues the source differs: it compares \<open>items.length\<close> with a
  JavaScript number, so a fractional \<open>maxSize\<close> admits one item more than the bound, and
  its \<open>oldest\<close> branch counts and reports a drop only when the evicted head is not
  \<open>undefined\<close>.
\<close>

theorem boundedQueue_bound_and_overflow:
  assumes "0 \<le> maxSize cfg"
    and "dropStrategy cfg = Oldest \<longrightarrow> 1 \<le> maxSize cfg"
  shows "int (size_q (queue_run (newBoundedQueue cfg) ops)) \<le> maxSize cfg
    \<and> (\<forall>q :: 'a BoundedQueue. \<forall>x. config q = cfg \<and> isFull q \<longrightarrow>
          (case dropStrategy cfg of
             Oldest \<Rightarrow> fst (enqueue x q) = True
                       \<and> items q \<noteq> []
                       \<and> items (snd (enqueue x q)) = tl (items q) @ [x]
                       \<and> droppedCount (snd (enqueue x q)) = droppedCount q + 1
           | Newest \<Rightarrow> fst (enqueue x q) = False
                       \<and> items (snd (enqueue x q)) = items q
                       \<and> droppedCount (snd (enqueue x q)) = droppedCount q + 1
           | Reject \<Rightarrow> enqueue x q = (False, q)))"
proof (intro conjI allI impI)
  show "int (size_q (queue_run (newBoundedQueue cfg) ops)) \<le> maxSize cfg"
    using size_queue_run[of "newBoundedQueue cfg" ops] assms
    by (simp add: size_q_def newBoundedQueue_def)
next
  fix q :: "'a BoundedQueue" and x
  assume h: "config q = cfg \<and> isFull q"
  show "case dropStrategy cfg of
             Oldest \<Rightarrow> fst (enqueue x q) = True
                       \<and> items q \<noteq> []
                       \<and> items (snd (enqueue x q)) = tl (items q) @ [x]
                       \<and> droppedCount (snd (enqueue x q)) = droppedCount q + 1
           | Newest \<Rightarrow> fst (enqueue x q) = False
                       \<and> items (snd (enqueue x q)) = items q
                       \<and> droppedCount (snd (enqueue x q)) = droppedCount q + 1
           | Reject \<Rightarrow> enqueue x q = (False, q)"
    using h assms by (auto simp: enqueue_def isFull_def split: dropStrategy.splits list.splits)
qed

theorem boundedQueue_bound_and_overflow_witness:
  "(0::int) \<le> 2
   \<and> int (size_q (queue_run (newBoundedQueue \<lparr>maxSize = 2, dropStrategy = Oldest, onDrop = True\<rparr>)
            [Enqueue (1::nat), Enqueue 2, Enqueue 3])) \<le> 2
   \<and> isFull \<lparr>config = \<lparr>maxSize = 2, dropStrategy = Oldest, onDrop = True\<rparr>,
             items = [1::nat, 2], droppedCount = 0, onDropCalls = []\<rparr>
   \<and> fst (enqueue 3 \<lparr>config = \<lparr>maxSize = 2, dropStrategy = Oldest, onDrop = True\<rparr>,
             items = [1::nat, 2], droppedCount = 0, onDropCalls = []\<rparr>) = True
   \<and> items (snd (enqueue 3 \<lparr>config = \<lparr>maxSize = 2, dropStrategy = Oldest, onDrop = True\<rparr>,
             items = [1::nat, 2], droppedCount = 0, onDropCalls = []\<rparr>)) = [2, 3]
   \<and> droppedCount (snd (enqueue 3 \<lparr>config = \<lparr>maxSize = 2, dropStrategy = Oldest, onDrop = True\<rparr>,
             items = [1::nat, 2], droppedCount = 0, onDropCalls = []\<rparr>)) = 1"
proof -
  let ?cfg = "\<lparr>maxSize = 2, dropStrategy = Oldest, onDrop = True\<rparr>"
  let ?q = "\<lparr>config = ?cfg, items = [1::nat, 2], droppedCount = 0, onDropCalls = []\<rparr>"
  have h1: "0 \<le> maxSize ?cfg" by simp
  have h2: "dropStrategy ?cfg = Oldest \<longrightarrow> 1 \<le> maxSize ?cfg" by simp
  have full: "config ?q = ?cfg \<and> isFull ?q" by (simp add: isFull_def)
  note t = boundedQueue_bound_and_overflow[OF h1 h2, of "[Enqueue (1::nat), Enqueue 2, Enqueue 3]"]
  have bound: "int (size_q (queue_run (newBoundedQueue ?cfg)
      [Enqueue (1::nat), Enqueue 2, Enqueue 3])) \<le> 2"
    using t[THEN conjunct1] by simp
  note u = t[THEN conjunct2, THEN spec, of ?q, THEN spec, of 3, THEN mp, OF full]
  have step: "fst (enqueue 3 ?q) = True \<and> items (snd (enqueue 3 ?q)) = [2, 3]
      \<and> droppedCount (snd (enqueue 3 ?q)) = 1"
    using u by simp
  from bound step full show ?thesis by simp
qed

subsection \<open>Message buffer\<close>

declare evictLoop.simps [simp del]

lemma evictLoop_stop: "isEmpty b \<or> \<not> totalBytes b + n > maxBytes b \<Longrightarrow> evictLoop est n b = b"
  by (subst evictLoop.simps) auto

lemma evictLoop_step:
  "\<not> isEmpty b \<Longrightarrow> totalBytes b + n > maxBytes b \<Longrightarrow>
   evictLoop est n b =
     (case mb_dequeue est b of
        (None, b') \<Rightarrow> evictLoop est n b'
      | (Some dropped, b') \<Rightarrow> evictLoop est n (b'\<lparr>totalBytes := totalBytes b' - est dropped\<rparr>))"
  by (subst evictLoop.simps) simp

lemma droppedCount_mb_dequeue: "droppedCount (snd (mb_dequeue est b)) = droppedCount b"
  by (simp add: mb_dequeue_def dequeue_def split: list.splits)

lemma onDropCalls_mb_dequeue: "onDropCalls (snd (mb_dequeue est b)) = onDropCalls b"
  by (simp add: mb_dequeue_def dequeue_def split: list.splits)

lemma evictLoop_silent:
  "droppedCount (evictLoop est n b) = droppedCount b \<and> onDropCalls (evictLoop est n b) = onDropCalls b"
proof (induction est n b rule: evictLoop.induct)
  case (1 est itemSize b)
  show ?case
  proof (cases "\<not> isEmpty b \<and> totalBytes b + itemSize > maxBytes b")
    case False
    then show ?thesis by (simp add: evictLoop_stop)
  next
    case True
    obtain r b' where d: "mb_dequeue est b = (r, b')" by (cases "mb_dequeue est b")
    have keep: "droppedCount b' = droppedCount b \<and> onDropCalls b' = onDropCalls b"
      using droppedCount_mb_dequeue[of est b] onDropCalls_mb_dequeue[of est b] d by simp
    show ?thesis
    proof (cases r)
      case None
      then show ?thesis
        using True d keep "1.IH"(1)[OF True d[symmetric, unfolded None]]
        by (simp add: evictLoop_step)
    next
      case (Some dropped)
      then show ?thesis
        using True d keep "1.IH"(2)[OF True d[symmetric, unfolded Some]]
        by (simp add: evictLoop_step)
    qed
  qed
qed

text \<open>
  Claim C1, evaluated on the code. A buffer with \<open>maxSize = 10\<close>, \<open>maxBytes = 20\<close> and the
  \<open>oldest\<close> strategy receives the strings \<open>aaa\<close>, \<open>bbb\<close>, \<open>ccc\<close> (10 estimated bytes
  each). The third enqueue evicts \<open>aaa\<close> through the eviction loop, which subtracts its
  size twice (once in the overriding \<open>dequeue\<close>, once in the loop body): the buffer then
  holds \<open>bbb\<close> and \<open>ccc\<close>, 20 bytes by the estimator, while \<open>totalBytes\<close> is 10.
  With \<open>maxSize = 1\<close> and a large byte budget, the second enqueue evicts \<open>aaa\<close> through
  the base queue's \<open>oldest\<close> branch, which does not touch \<open>totalBytes\<close>: the buffer
  holds \<open>bbb\<close> alone, 10 bytes, while \<open>totalBytes\<close> is 20.
\<close>

theorem messageBuffer_totalBytes_out_of_sync:
  "items (buffer_run estimateSizeString
       (newMessageBuffer \<lparr>maxSize = 10, dropStrategy = Oldest, onDrop = False\<rparr> (Some 20))
       [BufEnqueue ''aaa'', BufEnqueue ''bbb'', BufEnqueue ''ccc'']) = [''bbb'', ''ccc'']
   \<and> totalBytes (buffer_run estimateSizeString
       (newMessageBuffer \<lparr>maxSize = 10, dropStrategy = Oldest, onDrop = False\<rparr> (Some 20))
       [BufEnqueue ''aaa'', BufEnqueue ''bbb'', BufEnqueue ''ccc'']) = 10
   \<and> heldBytes estimateSizeString (buffer_run estimateSizeString
       (newMessageBuffer \<lparr>maxSize = 10, dropStrategy = Oldest, onDrop = False\<rparr> (Some 20))
       [BufEnqueue ''aaa'', BufEnqueue ''bbb'', BufEnqueue ''ccc'']) = 20
   \<and> items (buffer_run estimateSizeString
       (newMessageBuffer \<lparr>maxSize = 1, dropStrategy = Oldest, onDrop = False\<rparr> (Some 1000))
       [BufEnqueue ''aaa'', BufEnqueue ''bbb'']) = [''bbb'']
   \<and> totalBytes (buffer_run estimateSizeString
       (newMessageBuffer \<lparr>maxSize = 1, dropStrategy = Oldest, onDrop = False\<rparr> (Some 1000))
       [BufEnqueue ''aaa'', BufEnqueue ''bbb'']) = 20
   \<and> heldBytes estimateSizeString (buffer_run estimateSizeString
       (newMessageBuffer \<lparr>maxSize = 1, dropStrategy = Oldest, onDrop = False\<rparr> (Some 1000))
       [BufEnqueue ''aaa'', BufEnqueue ''bbb'']) = 10"
  by (simp add: buffer_run_def mb_enqueue_def enqueue_def newMessageBuffer_def isEmpty_def
      estimateSizeString_def mb_dequeue_def dequeue_def evictLoop.simps heldBytes_def
      callOnDrop_def)

text \<open>
  Claim C10: the byte-budget eviction loop of \<open>MessageBuffer.enqueue\<close> leaves
  \<open>droppedCount\<close> and the calls made to \<open>onDrop\<close> as they were, however many items it
  removes; after the whole enqueue both are exactly what the base queue's enqueue makes of
  them, starting from the buffer as the eviction step left it.
\<close>

theorem byte_eviction_silent:
  "droppedCount (evictLoop est (est item) b) = droppedCount b
   \<and> onDropCalls (evictLoop est (est item) b) = onDropCalls b
   \<and> droppedCount (snd (mb_enqueue est item b)) =
       droppedCount (snd (enqueue item
         (if totalBytes b + est item > maxBytes b \<and> \<not> isEmpty b
          then evictLoop est (est item) b else b)))
   \<and> onDropCalls (snd (mb_enqueue est item b)) =
       onDropCalls (snd (enqueue item
         (if totalBytes b + est item > maxBytes b \<and> \<not> isEmpty b
          then evictLoop est (est item) b else b)))"
  using evictLoop_silent[of est "est item" b]
  by (simp add: mb_enqueue_def Let_def split: prod.splits)

subsection \<open>withRetry\<close>

declare retryLoop.simps [simp del]
declare showNat.simps [simp del]

lemma isCancelledAt_mono: "\<not> isCancelledAt tok n \<Longrightarrow> m \<le> n \<Longrightarrow> \<not> isCancelledAt tok m"
  by (auto simp: isCancelledAt_def split: option.splits)

lemma retryLoop_lastError_irrelevant:
  "attempt < maxAttempts cfg \<Longrightarrow>
   retryLoop operation cfg rnd tok attempt invoked le
     = retryLoop operation cfg rnd tok attempt invoked le'"
  by (subst (1 2) retryLoop.simps) simp

lemma retryLoop_retry_step:
  assumes "attempt + 1 < maxAttempts cfg"
    and "\<not> isCancelledAt tok (2 * attempt + 1)"
    and "operation (length invoked) = Rejects t"
    and "\<not> isNonRetryable t"
  shows "retryLoop operation cfg rnd tok attempt invoked le
     = retryLoop operation cfg rnd tok (attempt + 1) (invoked @ [attempt]) le"
proof -
  have nc: "\<not> isCancelledAt tok (2 * attempt)"
    using assms(2) by (rule isCancelledAt_mono) simp
  have nl: "attempt \<noteq> maxAttempts cfg - 1" and lt: "attempt < maxAttempts cfg"
    using assms(1) by arith+
  have "retryLoop operation cfg rnd tok attempt invoked le
     = retryLoop operation cfg rnd tok (attempt + 1) (invoked @ [attempt]) (Some (toError t))"
    using assms(2-4) nc nl lt
    by (subst retryLoop.simps) (simp add: tryAttempt_def throwIfCancelled_def sleep_def)
  also have "\<dots> = retryLoop operation cfg rnd tok (attempt + 1) (invoked @ [attempt]) le"
    using assms(1) by (rule retryLoop_lastError_irrelevant)
  finally show ?thesis .
qed

lemma retryLoop_advance:
  assumes "i < maxAttempts cfg"
    and "\<forall>j<i. \<exists>t. operation j = Rejects t \<and> \<not> isNonRetryable t"
    and "\<forall>j<i. \<not> isCancelledAt tok (2 * j + 1)"
  shows "retryLoop operation cfg rnd tok 0 [] le = retryLoop operation cfg rnd tok i [0..<i] le"
  using assms
proof (induction i)
  case 0
  then show ?case by simp
next
  case (Suc i)
  have ih: "retryLoop operation cfg rnd tok 0 [] le = retryLoop operation cfg rnd tok i [0..<i] le"
    using Suc.prems by (intro Suc.IH) auto
  obtain t where t: "operation i = Rejects t" "\<not> isNonRetryable t"
    using Suc.prems(2) by blast
  have "retryLoop operation cfg rnd tok i [0..<i] le
      = retryLoop operation cfg rnd tok (i + 1) ([0..<i] @ [i]) le"
    using Suc.prems t by (intro retryLoop_retry_step[where t = t]) auto
  with ih show ?case by simp
qed

lemma retryLoop_invoked_uncancelled:
  "\<forall>a \<in> set invoked. \<not> isCancelledAt tok (2 * a) \<Longrightarrow>
   \<forall>a \<in> set (snd (retryLoop operation cfg rnd tok attempt invoked le)). \<not> isCancelledAt tok (2 * a)"
proof (induction operation cfg rnd tok attempt invoked le rule: retryLoop.induct)
  case (1 operation cfg rnd tok attempt invoked lastError)
  show ?case
  proof (cases "attempt < maxAttempts cfg")
    case False
    then show ?thesis using "1.prems" by (subst retryLoop.simps) simp
  next
    case True
    obtain r inv' where ta: "tryAttempt operation tok attempt invoked = (r, inv')"
      by (cases "tryAttempt operation tok attempt invoked")
    have inv': "\<forall>a \<in> set inv'. \<not> isCancelledAt tok (2 * a)"
      using ta "1.prems"
      by (auto simp: tryAttempt_def throwIfCancelled_def split: if_splits)
    show ?thesis
    proof (cases r)
      case (Resolves v)
      then show ?thesis using True ta inv' by (subst retryLoop.simps) simp
    next
      case (Rejects t)
      show ?thesis
      proof (cases "\<not> isNonRetryable t \<and> attempt \<noteq> maxAttempts cfg - 1
                    \<and> sleep (calculateBackoffDelay attempt cfg (rnd attempt)) tok (2 * attempt + 1) = None")
        case False
        then show ?thesis using True ta inv' Rejects
          by (subst retryLoop.simps) (auto split: option.splits)
      next
        case go: True
        have "\<forall>a \<in> set (snd (retryLoop operation cfg rnd tok (attempt + 1) inv' (Some (toError t)))).
                \<not> isCancelledAt tok (2 * a)"
          using go inv'
          by (intro "1.IH"[OF True ta[symmetric] Rejects]) simp_all
        then show ?thesis using True ta Rejects go
          by (subst retryLoop.simps) simp
      qed
    qed
  qed
qed

text \<open>
  Claim C2. Without cancellation during the call: an operation whose first \<open>k\<close> calls
  fail (with errors other than \<open>NonRetryableError\<close>) and whose next call succeeds, with
  \<open>k < maxAttempts\<close>, is called exactly \<open>k + 1\<close> times and \<open>withRetry\<close> resolves with
  the success value; an operation that fails in all of its first \<open>maxAttempts\<close> calls is
  called exactly \<open>maxAttempts\<close> times and \<open>withRetry\<close> rejects with a \<open>RetryableError\<close>
  whose message is \<open>Operation failed after <maxAttempts> attempts\<close> and whose cause is the
  last failure; an operation whose first call fails with a \<open>NonRetryableError\<close> is called
  once and \<open>withRetry\<close> rejects with that very error.
\<close>

theorem withRetry_attempts:
  "(k < maxAttempts (finalConfig pc)
      \<and> (\<forall>j<k. \<exists>t. operation j = Rejects t \<and> \<not> isNonRetryable t)
      \<and> operation k = Resolves v
      \<and> \<not> isCancelledAt tok (2 * k)
    \<longrightarrow> withRetry operation pc rnd tok = (Resolved v, [0..<k + 1])
        \<and> length (snd (withRetry operation pc rnd tok)) = k + 1)
   \<and> (1 \<le> maxAttempts (finalConfig pc)
      \<and> (\<forall>j<maxAttempts (finalConfig pc). \<exists>t. operation j = Rejects t \<and> \<not> isNonRetryable t)
      \<and> operation (maxAttempts (finalConfig pc) - 1) = Rejects lastThrown
      \<and> \<not> isCancelledAt tok (2 * (maxAttempts (finalConfig pc) - 1))
    \<longrightarrow> withRetry operation pc rnd tok
          = (Rejected (RetryableError
               (''Operation failed after '' @ showNat (maxAttempts (finalConfig pc)) @ '' attempts'')
               (Some (toError lastThrown))),
             [0..<maxAttempts (finalConfig pc)])
        \<and> length (snd (withRetry operation pc rnd tok)) = maxAttempts (finalConfig pc))
   \<and> (1 \<le> maxAttempts (finalConfig pc)
      \<and> operation 0 = Rejects (Thrown (NonRetryableError msg cause))
      \<and> \<not> isCancelledAt tok 0
    \<longrightarrow> withRetry operation pc rnd tok = (Rejected (NonRetryableError msg cause), [0])
        \<and> length (snd (withRetry operation pc rnd tok)) = 1)"
proof (intro conjI impI)
  let ?cfg = "finalConfig pc"
  {
    assume h: "k < maxAttempts ?cfg
      \<and> (\<forall>j<k. \<exists>t. operation j = Rejects t \<and> \<not> isNonRetryable t)
      \<and> operation k = Resolves v \<and> \<not> isCancelledAt tok (2 * k)"
    have nc: "\<forall>j<k. \<not> isCancelledAt tok (2 * j + 1)"
    proof (intro allI impI)
      fix j assume "j < k"
      then have "2 * j + 1 \<le> 2 * k" by simp
      with h show "\<not> isCancelledAt tok (2 * j + 1)"
        using isCancelledAt_mono[of tok "2 * k" "2 * j + 1"] by simp
    qed
    have "retryLoop operation ?cfg rnd tok 0 [] None = retryLoop operation ?cfg rnd tok k [0..<k] None"
      using h nc by (intro retryLoop_advance) simp_all
    also have "\<dots> = (Resolved v, [0..<k] @ [k])"
      using h by (subst retryLoop.simps) (simp add: tryAttempt_def throwIfCancelled_def)
    finally have r: "withRetry operation pc rnd tok = (Resolved v, [0..<k + 1])"
      by (simp add: withRetry_def)
    show "withRetry operation pc rnd tok = (Resolved v, [0..<k + 1])" by (rule r)
    show "length (snd (withRetry operation pc rnd tok)) = k + 1" by (simp add: r)
  }
  {
    assume h: "1 \<le> maxAttempts ?cfg
      \<and> (\<forall>j<maxAttempts ?cfg. \<exists>t. operation j = Rejects t \<and> \<not> isNonRetryable t)
      \<and> operation (maxAttempts ?cfg - 1) = Rejects lastThrown
      \<and> \<not> isCancelledAt tok (2 * (maxAttempts ?cfg - 1))"
    define m where "m = maxAttempts ?cfg - 1"
    have m: "maxAttempts ?cfg = m + 1" using h by (simp add: m_def)
    have nc: "\<forall>j<m. \<not> isCancelledAt tok (2 * j + 1)"
    proof (intro allI impI)
      fix j assume "j < m"
      then have "2 * j + 1 \<le> 2 * m" by simp
      with h show "\<not> isCancelledAt tok (2 * j + 1)"
        unfolding m_def[symmetric]
        using isCancelledAt_mono[of tok "2 * m" "2 * j + 1"] by simp
    qed
    have lastm: "operation m = Rejects lastThrown"
      using h by (simp add: m_def)
    have "m < maxAttempts ?cfg" using m by simp
    with h have "\<exists>t. operation m = Rejects t \<and> \<not> isNonRetryable t"
      by blast
    with lastm have nr: "\<not> isNonRetryable lastThrown" by auto
    have "retryLoop operation ?cfg rnd tok 0 [] None = retryLoop operation ?cfg rnd tok m [0..<m] None"
      using h nc m by (intro retryLoop_advance) simp_all
    also have "\<dots> = (Rejected (RetryableError (exhaustedMessage ?cfg) (Some (toError lastThrown))),
                      [0..<m] @ [m])"
      using h nr unfolding m_def[symmetric]
      by (subst retryLoop.simps) (simp add: tryAttempt_def throwIfCancelled_def m)
    finally have r: "withRetry operation pc rnd tok
          = (Rejected (RetryableError
               (''Operation failed after '' @ showNat (maxAttempts ?cfg) @ '' attempts'')
               (Some (toError lastThrown))),
             [0..<maxAttempts ?cfg])"
      by (simp add: withRetry_def exhaustedMessage_def m)
    show "withRetry operation pc rnd tok
          = (Rejected (RetryableError
               (''Operation failed after '' @ showNat (maxAttempts ?cfg) @ '' attempts'')
               (Some (toError lastThrown))),
             [0..<maxAttempts ?cfg])" by (rule r)
    show "length (snd (withRetry operation pc rnd tok)) = maxAttempts ?cfg" by (simp add: r)
  }
  {
    assume h: "1 \<le> maxAttempts ?cfg
      \<and> operation 0 = Rejects (Thrown (NonRetryableError msg cause))
      \<and> \<not> isCancelledAt tok 0"
    have r: "withRetry operation pc rnd tok = (Rejected (NonRetryableError msg cause), [0])"
      using h unfolding withRetry_def
      by (subst retryLoop.simps)
         (simp add: tryAttempt_def throwIfCancelled_def isNonRetryable_def toError_def)
    show "withRetry operation pc rnd tok = (Rejected (NonRetryableError msg cause), [0])" by (rule r)
    show "length (snd (withRetry operation pc rnd tok)) = 1" by (simp add: r)
  }
qed

text \<open>The three cases of C2 on the retry tests' inputs.\<close>

theorem withRetry_attempts_witness:
  "withRetry (\<lambda>n. if n < 2 then Rejects (Thrown (Error ''fail'')) else Resolves ''success'')
      \<lparr>p_maxAttempts = Some 3, p_initialDelay = Some 100, p_maxDelay = None,
       p_backoffMultiplier = None, p_jitter = Some False\<rparr> (\<lambda>n. 0) None
     = (Resolved ''success'', [0, 1, 2])
   \<and> withRetry (\<lambda>n. Rejects (Thrown (Error ''persistent failure'')) :: string outcome)
      \<lparr>p_maxAttempts = Some 2, p_initialDelay = Some 100, p_maxDelay = None,
       p_backoffMultiplier = None, p_jitter = None\<rparr> (\<lambda>n. 0) None
     = (Rejected (RetryableError ''Operation failed after 2 attempts''
                    (Some (Error ''persistent failure''))), [0, 1])
   \<and> withRetry (\<lambda>n. Rejects (Thrown (NonRetryableError ''do not retry'' None)) :: string outcome)
      \<lparr>p_maxAttempts = Some 5, p_initialDelay = None, p_maxDelay = None,
       p_backoffMultiplier = None, p_jitter = None\<rparr> (\<lambda>n. 0) None
     = (Rejected (NonRetryableError ''do not retry'' None), [0])"
proof -
  let ?op1 = "\<lambda>n::nat. if n < 2 then Rejects (Thrown (Error ''fail'')) else Resolves ''success''"
  let ?pc1 = "\<lparr>p_maxAttempts = Some 3, p_initialDelay = Some 100, p_maxDelay = None,
       p_backoffMultiplier = None, p_jitter = Some False\<rparr>"
  let ?op2 = "\<lambda>n::nat. Rejects (Thrown (Error ''persistent failure'')) :: string outcome"
  let ?pc2 = "\<lparr>p_maxAttempts = Some 2, p_initialDelay = Some 100, p_maxDelay = None,
       p_backoffMultiplier = None, p_jitter = None\<rparr>"
  let ?op3 = "\<lambda>n::nat. Rejects (Thrown (NonRetryableError ''do not retry'' None)) :: string outcome"
  let ?pc3 = "\<lparr>p_maxAttempts = Some 5, p_initialDelay = None, p_maxDelay = None,
       p_backoffMultiplier = None, p_jitter = None\<rparr>"
  have upt3: "[0..<3] = [0, 1, 2]" and upt2: "[0..<2] = [0, 1]"
    by (simp_all add: upt_rec)
  have h1: "2 < maxAttempts (finalConfig ?pc1)
      \<and> (\<forall>j<2. \<exists>t. ?op1 j = Rejects t \<and> \<not> isNonRetryable t)
      \<and> ?op1 2 = Resolves ''success''
      \<and> \<not> isCancelledAt None (2 * 2)"
    by (simp add: finalConfig_def isNonRetryable_def isCancelledAt_def)
  have a: "withRetry ?op1 ?pc1 (\<lambda>n. 0) None = (Resolved ''success'', [0, 1, 2])"
    using withRetry_attempts[of 2 ?pc1 ?op1 "''success''" None "\<lambda>n. 0", THEN conjunct1, THEN mp, OF h1]
    by (simp add: upt3)
  have h2: "1 \<le> maxAttempts (finalConfig ?pc2)
      \<and> (\<forall>j<maxAttempts (finalConfig ?pc2). \<exists>t. ?op2 j = Rejects t \<and> \<not> isNonRetryable t)
      \<and> ?op2 (maxAttempts (finalConfig ?pc2) - 1) = Rejects (Thrown (Error ''persistent failure''))
      \<and> \<not> isCancelledAt None (2 * (maxAttempts (finalConfig ?pc2) - 1))"
    by (simp add: finalConfig_def isNonRetryable_def isCancelledAt_def)
  have b: "withRetry ?op2 ?pc2 (\<lambda>n. 0) None
     = (Rejected (RetryableError ''Operation failed after 2 attempts''
                    (Some (Error ''persistent failure''))), [0, 1])"
    using withRetry_attempts[of _ ?pc2 ?op2 _ None "\<lambda>n. 0" "Thrown (Error ''persistent failure'')",
        THEN conjunct2, THEN conjunct1, THEN mp, OF h2]
    by (simp add: finalConfig_def upt2 showNat.simps toError_def)
  have h3: "1 \<le> maxAttempts (finalConfig ?pc3)
      \<and> ?op3 0 = Rejects (Thrown (NonRetryableError ''do not retry'' None))
      \<and> \<not> isCancelledAt None 0"
    by (simp add: finalConfig_def isCancelledAt_def)
  have c: "withRetry ?op3 ?pc3 (\<lambda>n. 0) None
     = (Rejected (NonRetryableError ''do not retry'' None), [0])"
    using withRetry_attempts[of _ ?pc3 ?op3 _ None "\<lambda>n. 0" _ "''do not retry''" None,
        THEN conjunct2, THEN conjunct2, THEN mp, OF h3]
    by simp
  from a b c show ?thesis by simp
qed

lemma isCancelledAt_later: "isCancelledAt tok m \<Longrightarrow> m \<le> n \<Longrightarrow> isCancelledAt tok n"
  using isCancelledAt_mono[of tok n m] by blast

lemma retryLoop_at_cancelled_attempt:
  assumes "i < maxAttempts cfg" and "isCancelledAt tok (2 * i)"
  shows "retryLoop operation cfg rnd tok i invoked le =
     (if i = maxAttempts cfg - 1
      then (Rejected (RetryableError (exhaustedMessage cfg)
                        (Some (CancellationError ''Operation was cancelled''))), invoked)
      else (Rejected (Error ''Operation was cancelled''), invoked))"
proof -
  have "isCancelledAt tok (2 * i + 1)"
    using assms(2) by (rule isCancelledAt_later) simp
  then show ?thesis
    using assms
    by (subst retryLoop.simps)
       (simp add: tryAttempt_def throwIfCancelled_def sleep_def isNonRetryable_def toError_def)
qed

lemma retryLoop_reaching_cancelled_attempt:
  assumes i: "i < maxAttempts cfg"
    and c: "isCancelledAt tok (2 * i)"
    and first: "\<forall>j<i. \<not> isCancelledAt tok (2 * j)"
    and fails: "\<forall>j<i. \<exists>t. operation j = Rejects t \<and> \<not> isNonRetryable t"
  shows "retryLoop operation cfg rnd tok 0 [] None =
     (if i = maxAttempts cfg - 1 \<and> (i = 0 \<or> \<not> isCancelledAt tok (2 * i - 1))
      then (Rejected (RetryableError (exhaustedMessage cfg)
                        (Some (CancellationError ''Operation was cancelled''))), [0..<i])
      else (Rejected (Error ''Operation was cancelled''), [0..<i]))"
proof (cases i)
  case 0
  then show ?thesis
    using retryLoop_at_cancelled_attempt[OF i c, of operation rnd "[]" None] by simp
next
  case (Suc n)
  have nc: "\<forall>j<n. \<not> isCancelledAt tok (2 * j + 1)"
  proof (intro allI impI)
    fix j assume "j < n"
    then have "Suc j < i" by (simp add: Suc)
    with first have "\<not> isCancelledAt tok (2 * Suc j)" by blast
    then show "\<not> isCancelledAt tok (2 * j + 1)"
      by (rule isCancelledAt_mono) simp
  qed
  have n: "n < maxAttempts cfg" "n + 1 < maxAttempts cfg" "n \<noteq> maxAttempts cfg - 1"
    using i Suc by simp_all
  have ncn: "\<not> isCancelledAt tok (2 * n)"
    using first Suc by simp
  obtain t where t: "operation n = Rejects t" "\<not> isNonRetryable t"
    using fails Suc by auto
  have adv: "retryLoop operation cfg rnd tok 0 [] None = retryLoop operation cfg rnd tok n [0..<n] None"
    using n(1) fails nc Suc by (intro retryLoop_advance) simp_all
  show ?thesis
  proof (cases "isCancelledAt tok (2 * n + 1)")
    case True
    have "retryLoop operation cfg rnd tok n [0..<n] None
        = (Rejected (Error ''Operation was cancelled''), [0..<n] @ [n])"
      using n ncn t True
      by (subst retryLoop.simps) (simp add: tryAttempt_def throwIfCancelled_def sleep_def)
    with adv True show ?thesis by (simp add: Suc)
  next
    case False
    have "retryLoop operation cfg rnd tok n [0..<n] None
        = retryLoop operation cfg rnd tok (n + 1) ([0..<n] @ [n]) None"
      using n(2) False t by (intro retryLoop_retry_step[where t = t]) simp_all
    also have "\<dots> = retryLoop operation cfg rnd tok i [0..<i] None"
      by (simp add: Suc)
    also have "\<dots> = (if i = maxAttempts cfg - 1
      then (Rejected (RetryableError (exhaustedMessage cfg)
                        (Some (CancellationError ''Operation was cancelled''))), [0..<i])
      else (Rejected (Error ''Operation was cancelled''), [0..<i]))"
      using i c by (rule retryLoop_at_cancelled_attempt)
    finally show ?thesis using adv False by (simp add: Suc)
  qed
qed

text \<open>
  Claim C4, evaluated on the code: a call of \<open>withRetry\<close> whose token is cancelled
  before the first attempt should reject with the \<open>CancellationError\<close> that
  \<open>throwIfCancelled()\<close> throws. The check sits inside the \<open>try\<close> of the loop, so the
  retry handler catches that error like any failure of the operation. Under
  \<open>maxAttempts = 1\<close> the attempt is the last one and the caller receives
  \<open>RetryableError('Operation failed after 1 attempts')\<close> with the \<open>CancellationError\<close>
  as its cause; under \<open>maxAttempts = 3\<close> the handler goes on to \<open>sleep\<close>, which finds
  the token cancelled and rejects with a plain \<open>Error\<close>. In neither call is the operation
  called, and in neither is the rejection a \<open>CancellationError\<close>.
\<close>

theorem withRetry_cancelled_no_CancellationError:
  "withRetry (\<lambda>n. Rejects (Thrown (Error ''fail'')) :: string outcome)
      \<lparr>p_maxAttempts = Some 3, p_initialDelay = None, p_maxDelay = None,
       p_backoffMultiplier = None, p_jitter = None\<rparr> (\<lambda>n. 0) (Some (Some 0))
     = (Rejected (Error ''Operation was cancelled''), [])
   \<and> withRetry (\<lambda>n. Rejects (Thrown (Error ''fail'')) :: string outcome)
      \<lparr>p_maxAttempts = Some 1, p_initialDelay = None, p_maxDelay = None,
       p_backoffMultiplier = None, p_jitter = None\<rparr> (\<lambda>n. 0) (Some (Some 0))
     = (Rejected (RetryableError ''Operation failed after 1 attempts''
                    (Some (CancellationError ''Operation was cancelled''))), [])"
  by (simp add: withRetry_def retryLoop.simps finalConfig_def tryAttempt_def throwIfCancelled_def
      isCancelledAt_def sleep_def isNonRetryable_def toError_def exhaustedMessage_def showNat.simps)

text \<open>
  What holds of cancellation in \<open>withRetry\<close>: the operation is never called in an
  attempt that begins after the token is cancelled; and when the call reaches such an
  attempt, every earlier attempt having failed with a retryable error, the operation has
  been called in exactly the attempts before it.
\<close>

lemma withRetry_not_invoked_after_cancel:
  "(\<forall>a \<in> set (snd (withRetry operation pc rnd tok)). \<not> isCancelledAt tok (2 * a))
   \<and> (i < maxAttempts (finalConfig pc)
      \<and> isCancelledAt tok (2 * i)
      \<and> (\<forall>j<i. \<not> isCancelledAt tok (2 * j))
      \<and> (\<forall>j<i. \<exists>t. operation j = Rejects t \<and> \<not> isNonRetryable t)
    \<longrightarrow> snd (withRetry operation pc rnd tok) = [0..<i])"
proof (intro conjI impI)
  show "\<forall>a \<in> set (snd (withRetry operation pc rnd tok)). \<not> isCancelledAt tok (2 * a)"
    unfolding withRetry_def by (rule retryLoop_invoked_uncancelled) simp
next
  assume h: "i < maxAttempts (finalConfig pc)
      \<and> isCancelledAt tok (2 * i)
      \<and> (\<forall>j<i. \<not> isCancelledAt tok (2 * j))
      \<and> (\<forall>j<i. \<exists>t. operation j = Rejects t \<and> \<not> isNonRetryable t)"
  note r = retryLoop_reaching_cancelled_attempt[of i "finalConfig pc" tok operation rnd,
      OF h[THEN conjunct1] h[THEN conjunct2, THEN conjunct1]
         h[THEN conjunct2, THEN conjunct2, THEN conjunct1]
         h[THEN conjunct2, THEN conjunct2, THEN conjunct2]]
  show "snd (withRetry operation pc rnd tok) = [0..<i]"
    unfolding withRetry_def r by simp
qed

subsection \<open>Concurrency limiter\<close>

declare executeImmediate.simps [simp del]
declare processQueue.simps [simp del]

lemma settle_fields [simp]:
  "nextOp (settle i r s) = nextOp s" "queue (settle i r s) = queue s"
  "invokedOps (settle i r s) = invokedOps s" "inFlight (settle i r s) = inFlight s"
  "running (settle i r s) = running s" "limiterConfig (settle i r s) = limiterConfig s"
  "cancelledTokens (settle i r s) = cancelledTokens s"
  "cancelCallbacks (settle i r s) = cancelCallbacks s"
  "settlements (settle i r s) = settlements s @ [(i, r)]"
  by (simp_all add: settle_def)

lemma tokenIsCancelled_cong [simp]:
  "tokenIsCancelled tok (s\<lparr>running := n\<rparr>) = tokenIsCancelled tok s"
  "tokenIsCancelled tok (s\<lparr>queue := qs\<rparr>) = tokenIsCancelled tok s"
  "tokenIsCancelled tok (s\<lparr>nextOp := m\<rparr>) = tokenIsCancelled tok s"
  "tokenIsCancelled tok (settle i r s) = tokenIsCancelled tok s"
  by (simp_all add: tokenIsCancelled_def split: option.splits)

text \<open>What the two mutually recursive methods can change.\<close>

lemma exec_frame:
  shows "nextOp (executeImmediate q s) = nextOp s
         \<and> set (queue (executeImmediate q s)) \<subseteq> set (queue s)
         \<and> set (invokedOps (executeImmediate q s))
             \<subseteq> set (invokedOps s) \<union> {op_id q} \<union> op_id ` set (queue s)"
    and "nextOp (processQueue s) = nextOp s
         \<and> set (queue (processQueue s)) \<subseteq> set (queue s)
         \<and> set (invokedOps (processQueue s)) \<subseteq> set (invokedOps s) \<union> op_id ` set (queue s)"
proof (induction q s and s rule: executeImmediate_processQueue.induct)
  case (1 queuedOp s)
  show ?case
  proof (cases "tokenIsCancelled (op_token queuedOp) s")
    case True
    let ?s' = "(settle (op_id queuedOp) (Rejected (CancellationError ''Operation was cancelled''))
                  (s\<lparr>running := running s + 1\<rparr>))\<lparr>running := running (s\<lparr>running := running s + 1\<rparr>) - 1\<rparr>"
    have ih: "nextOp (processQueue ?s') = nextOp ?s'
         \<and> set (queue (processQueue ?s')) \<subseteq> set (queue ?s')
         \<and> set (invokedOps (processQueue ?s')) \<subseteq> set (invokedOps ?s') \<union> op_id ` set (queue ?s')"
      using True by (intro "1.IH") simp_all
    have eq: "executeImmediate queuedOp s = processQueue ?s'"
      using True by (subst executeImmediate.simps) (simp add: Let_def)
    show ?thesis unfolding eq using ih by auto
  next
    case False
    then show ?thesis by (subst (1 2 3) executeImmediate.simps) (auto simp: Let_def)
  qed
next
  case (2 s)
  show ?case
  proof (cases "int (running s) \<ge> maxConcurrent (limiterConfig s) \<or> length (queue s) = 0")
    case True
    then show ?thesis by (subst (1 2 3) processQueue.simps) auto
  next
    case False
    then obtain n rest where q: "queue s = n # rest" by (cases "queue s") auto
    have ih: "nextOp (executeImmediate n (s\<lparr>queue := rest\<rparr>)) = nextOp (s\<lparr>queue := rest\<rparr>)
         \<and> set (queue (executeImmediate n (s\<lparr>queue := rest\<rparr>))) \<subseteq> set (queue (s\<lparr>queue := rest\<rparr>))
         \<and> set (invokedOps (executeImmediate n (s\<lparr>queue := rest\<rparr>)))
             \<subseteq> set (invokedOps (s\<lparr>queue := rest\<rparr>)) \<union> {op_id n} \<union> op_id ` set (queue (s\<lparr>queue := rest\<rparr>))"
      using False q by (intro "2.IH") simp_all
    have eq: "processQueue s = executeImmediate n (s\<lparr>queue := rest\<rparr>)"
      using False q by (subst processQueue.simps) simp
    show ?thesis unfolding eq using ih q by auto
  qed
qed

text \<open>An operation that is numbered, not called and not queued stays so.\<close>

lemma dead_processQueue: "dead i s \<Longrightarrow> dead i (processQueue s)"
  using exec_frame(2)[of s] by (auto simp: dead_def)

lemma dead_execute: "dead i s \<Longrightarrow> dead i (execute tok s)"
proof -
  assume d: "dead i s"
  let ?q = "\<lparr>op_id = nextOp s, op_token = tok\<rparr>"
  let ?s0 = "s\<lparr>nextOp := nextOp s + 1\<rparr>"
  have ne: "i \<noteq> nextOp s" using d by (simp add: dead_def)
  have "dead i (executeImmediate ?q ?s0)"
    using exec_frame(1)[of ?q ?s0] d ne by (auto simp: dead_def)
  then show ?thesis
    using d ne by (auto simp: execute_def Let_def dead_def split: option.splits)
qed

lemma dead_operationSettles: "dead i s \<Longrightarrow> dead i (operationSettles j out s)"
proof -
  assume d: "dead i s"
  show ?thesis
  proof (cases "j \<in> set (inFlight s)")
    case False
    then show ?thesis using d by (simp add: operationSettles_def)
  next
    case True
    let ?r = "case out of Resolves v \<Rightarrow> Resolved v | Rejects t \<Rightarrow> Rejected (toError t)"
    let ?s2 = "(settle j ?r s)\<lparr>inFlight := removeAll j (inFlight (settle j ?r s))\<rparr>"
    have "dead i (?s2\<lparr>running := running ?s2 - 1\<rparr>)"
      using d by (simp add: dead_def)
    then have "dead i (processQueue (?s2\<lparr>running := running ?s2 - 1\<rparr>))"
      by (rule dead_processQueue)
    then show ?thesis using True by (simp add: operationSettles_def Let_def)
  qed
qed

lemma cancelCallback_fields [simp]:
  "nextOp (cancelCallback s q) = nextOp s" "invokedOps (cancelCallback s q) = invokedOps s"
  "inFlight (cancelCallback s q) = inFlight s" "cancelledTokens (cancelCallback s q) = cancelledTokens s"
  "cancelCallbacks (cancelCallback s q) = cancelCallbacks s"
  by (simp_all add: cancelCallback_def)

lemma foldl_cancelCallback_fields [simp]:
  "nextOp (foldl cancelCallback s qs) = nextOp s"
  "invokedOps (foldl cancelCallback s qs) = invokedOps s"
  "inFlight (foldl cancelCallback s qs) = inFlight s"
  "cancelledTokens (foldl cancelCallback s qs) = cancelledTokens s"
  "cancelCallbacks (foldl cancelCallback s qs) = cancelCallbacks s"
  by (induction qs arbitrary: s) simp_all

lemma foldl_cancelCallback_queue:
  "distinct (queue s) \<Longrightarrow>
   queue (foldl cancelCallback s qs) = filter (\<lambda>q. q \<notin> set qs) (queue s)"
proof (induction qs arbitrary: s)
  case Nil
  then show ?case by simp
next
  case (Cons q qs)
  have d: "distinct (queue (cancelCallback s q))"
    using Cons.prems by (simp add: cancelCallback_def)
  have q: "queue (cancelCallback s q) = removeAll q (queue s)"
    using Cons.prems by (simp add: cancelCallback_def distinct_remove1_removeAll)
  have "filter (\<lambda>x. x \<notin> set qs) (removeAll q (queue s))
      = filter (\<lambda>x. x \<notin> set (q # qs)) (queue s)"
    by (auto simp: removeAll_filter_not_eq intro: filter_cong)
  then show ?case
    using Cons.IH[OF d] by (simp add: q)
qed

lemma dead_cancelToken: "dead i s \<Longrightarrow> distinct (queue s) \<Longrightarrow> dead i (cancelToken k s)"
  by (auto simp: cancelToken_def dead_def Let_def foldl_cancelCallback_queue)


text \<open>The well-formedness invariant is kept by every event.\<close>

lemma inv_running [simp]: "limiter_inv (s\<lparr>running := n\<rparr>) = limiter_inv s"
  by (simp add: limiter_inv_def queuedOk_def list_all_iff cong: option.case_cong)

lemma inv_settle:
  "limiter_inv s \<Longrightarrow> i < nextOp s \<Longrightarrow> i \<notin> op_id ` set (queue s) \<Longrightarrow> limiter_inv (settle i r s)"
  by (auto simp: limiter_inv_def queuedOk_def list_all_iff split: option.splits)

lemma inv_invoke:
  "limiter_inv s \<Longrightarrow> i < nextOp s \<Longrightarrow> i \<notin> op_id ` set (queue s) \<Longrightarrow>
   limiter_inv (s\<lparr>invokedOps := invokedOps s @ [i], inFlight := inFlight s @ [i]\<rparr>)"
  by (auto simp: limiter_inv_def queuedOk_def list_all_iff split: option.splits)

lemma inv_pop:
  "limiter_inv s \<Longrightarrow> queue s = n # rest \<Longrightarrow>
   limiter_inv (s\<lparr>queue := rest\<rparr>) \<and> op_id n < nextOp s \<and> op_id n \<notin> op_id ` set rest"
  by (auto simp: limiter_inv_def queuedOk_def list_all_iff split: option.splits)

lemma inv_exec:
  shows "limiter_inv s \<and> op_id q < nextOp s \<and> op_id q \<notin> op_id ` set (queue s)
         \<longrightarrow> limiter_inv (executeImmediate q s)"
    and "limiter_inv s \<longrightarrow> limiter_inv (processQueue s)"
proof (induction q s and s rule: executeImmediate_processQueue.induct)
  case (1 queuedOp s)
  show ?case
  proof (intro impI)
    assume h: "limiter_inv s \<and> op_id queuedOp < nextOp s \<and> op_id queuedOp \<notin> op_id ` set (queue s)"
    show "limiter_inv (executeImmediate queuedOp s)"
    proof (cases "tokenIsCancelled (op_token queuedOp) s")
      case True
      let ?s' = "(settle (op_id queuedOp) (Rejected (CancellationError ''Operation was cancelled''))
                  (s\<lparr>running := running s + 1\<rparr>))\<lparr>running := running (s\<lparr>running := running s + 1\<rparr>) - 1\<rparr>"
      have ih: "limiter_inv ?s' \<longrightarrow> limiter_inv (processQueue ?s')"
        using True by (intro "1.IH") simp_all
      have "limiter_inv (settle (op_id queuedOp) (Rejected (CancellationError ''Operation was cancelled''))
                  (s\<lparr>running := running s + 1\<rparr>))"
        using h by (intro inv_settle) simp_all
      then have "limiter_inv ?s'" by simp
      with ih have "limiter_inv (processQueue ?s')" by blast
      moreover have "executeImmediate queuedOp s = processQueue ?s'"
        using True by (subst executeImmediate.simps) (simp add: Let_def)
      ultimately show ?thesis by simp
    next
      case False
      have "limiter_inv ((s\<lparr>running := running s + 1\<rparr>)
              \<lparr>invokedOps := invokedOps (s\<lparr>running := running s + 1\<rparr>) @ [op_id queuedOp],
               inFlight := inFlight (s\<lparr>running := running s + 1\<rparr>) @ [op_id queuedOp]\<rparr>)"
        using h by (intro inv_invoke) simp_all
      then show ?thesis
        using False by (subst executeImmediate.simps) (simp add: Let_def)
    qed
  qed
next
  case (2 s)
  show ?case
  proof (intro impI)
    assume h: "limiter_inv s"
    show "limiter_inv (processQueue s)"
    proof (cases "int (running s) \<ge> maxConcurrent (limiterConfig s) \<or> length (queue s) = 0")
      case True
      then show ?thesis using h by (subst processQueue.simps) auto
    next
      case False
      then obtain n rest where q: "queue s = n # rest" by (cases "queue s") auto
      have ih: "limiter_inv (s\<lparr>queue := rest\<rparr>) \<and> op_id n < nextOp (s\<lparr>queue := rest\<rparr>)
                  \<and> op_id n \<notin> op_id ` set (queue (s\<lparr>queue := rest\<rparr>))
                \<longrightarrow> limiter_inv (executeImmediate n (s\<lparr>queue := rest\<rparr>))"
        using False q by (intro "2.IH") simp_all
      have "limiter_inv (executeImmediate n (s\<lparr>queue := rest\<rparr>))"
        using ih inv_pop[OF h q] by simp
      moreover have "processQueue s = executeImmediate n (s\<lparr>queue := rest\<rparr>)"
        using False q by (subst processQueue.simps) simp
      ultimately show ?thesis by simp
    qed
  qed
qed

lemma inv_nextOp: "limiter_inv s \<Longrightarrow> limiter_inv (s\<lparr>nextOp := nextOp s + 1\<rparr>)"
  by (auto simp: limiter_inv_def queuedOk_def list_all_iff split: option.splits)

lemma inv_ids_below:
  "limiter_inv s \<Longrightarrow> nextOp s \<notin> op_id ` set (queue s) \<and> nextOp s \<notin> set (invokedOps s)
     \<and> nextOp s \<notin> fst ` set (settlements s)"
  by (auto simp: limiter_inv_def queuedOk_def list_all_iff)

lemma inv_execute: "limiter_inv s \<Longrightarrow> limiter_inv (execute tok s)"
proof -
  assume h: "limiter_inv s"
  let ?q = "\<lparr>op_id = nextOp s, op_token = tok\<rparr>"
  let ?s0 = "s\<lparr>nextOp := nextOp s + 1\<rparr>"
  have h0: "limiter_inv ?s0" using h by (rule inv_nextOp)
  note fresh = inv_ids_below[OF h]
  have a: "limiter_inv (settle (nextOp s) r ?s0)" for r
    using h0 fresh by (intro inv_settle) simp_all
  have b: "limiter_inv (executeImmediate ?q ?s0)"
    using inv_exec(1)[of ?s0 ?q] h0 fresh by simp
  have c: "limiter_inv (s\<lparr>nextOp := nextOp s + 1, queue := queue s @ [?q]\<rparr>)"
    if "tok = None"
    using h0 fresh that
    by (auto simp: limiter_inv_def queuedOk_def list_all_iff split: option.splits)
  have d: "limiter_inv (s\<lparr>nextOp := nextOp s + 1, queue := queue s @ [?q],
                          cancelCallbacks := cancelCallbacks s @ [(k, ?q)]\<rparr>)"
    if "tok = Some k" "\<not> tokenIsCancelled tok s" for k
    using h0 fresh that
    by (auto simp: limiter_inv_def queuedOk_def list_all_iff tokenIsCancelled_def
        split: option.splits)
  show ?thesis
  proof (cases tok)
    case None
    then show ?thesis using a b c by (simp add: execute_def Let_def)
  next
    case (Some k)
    then show ?thesis using a b d[of k] by (simp add: execute_def Let_def)
  qed
qed

lemma inv_operationSettles: "limiter_inv s \<Longrightarrow> limiter_inv (operationSettles j out s)"
proof (cases "j \<in> set (inFlight s)")
  case False
  assume "limiter_inv s"
  then show ?thesis using False by (simp add: operationSettles_def)
next
  case True
  assume h: "limiter_inv s"
  let ?r = "case out of Resolves v \<Rightarrow> Resolved v | Rejects t \<Rightarrow> Rejected (toError t)"
  have j: "j < nextOp s \<and> j \<notin> op_id ` set (queue s)"
    using h True by (auto simp: limiter_inv_def queuedOk_def list_all_iff)
  have "limiter_inv (settle j ?r s)"
    using h j by (intro inv_settle) simp_all
  then have "limiter_inv ((settle j ?r s)\<lparr>inFlight := removeAll j (inFlight (settle j ?r s))\<rparr>)"
    by (auto simp: limiter_inv_def queuedOk_def list_all_iff split: option.splits)
  then have "limiter_inv (processQueue
      (((settle j ?r s)\<lparr>inFlight := removeAll j (inFlight (settle j ?r s))\<rparr>)
         \<lparr>running := running ((settle j ?r s)\<lparr>inFlight := removeAll j (inFlight (settle j ?r s))\<rparr>) - 1\<rparr>))"
    by (intro inv_exec(2)[THEN mp]) simp
  then show ?thesis using True by (simp add: operationSettles_def Let_def)
qed

lemma distinct_op_id_eq:
  "distinct (map op_id xs) \<Longrightarrow> x \<in> set xs \<Longrightarrow> y \<in> set xs \<Longrightarrow> op_id x = op_id y \<Longrightarrow> x = y"
  by (meson distinct_map inj_onD)

lemma distinct_queue: "limiter_inv s \<Longrightarrow> distinct (queue s)"
  by (simp add: limiter_inv_def distinct_map)

lemma cancelCallback_queue_subset: "set (queue (cancelCallback s q)) \<subseteq> set (queue s)"
  by (auto simp: cancelCallback_def dest: set_remove1_subset[THEN subsetD])

lemma foldl_cancelCallback_settled_ids:
  "fst ` set (settlements (foldl cancelCallback s qs))
     \<subseteq> fst ` set (settlements s) \<union> op_id ` (set qs \<inter> set (queue s))"
proof (induction qs arbitrary: s)
  case Nil
  then show ?case by simp
next
  case (Cons q qs)
  have step: "fst ` set (settlements (cancelCallback s q))
      \<subseteq> fst ` set (settlements s) \<union> op_id ` ({q} \<inter> set (queue s))"
    by (auto simp: cancelCallback_def)
  have "fst ` set (settlements (foldl cancelCallback (cancelCallback s q) qs))
      \<subseteq> fst ` set (settlements (cancelCallback s q))
          \<union> op_id ` (set qs \<inter> set (queue (cancelCallback s q)))"
    by (rule Cons.IH)
  also have "\<dots> \<subseteq> fst ` set (settlements s) \<union> op_id ` (set (q # qs) \<inter> set (queue s))"
    using step cancelCallback_queue_subset[of s q] by auto
  finally show ?case by simp
qed

lemma foldl_cancelCallback_settlements_of:
  "distinct (map op_id (queue s)) \<Longrightarrow>
   filter (\<lambda>x. fst x = i) (settlements (foldl cancelCallback s qs))
     = filter (\<lambda>x. fst x = i) (settlements s)
       @ (if \<exists>q \<in> set qs. q \<in> set (queue s) \<and> op_id q = i
          then [(i, Rejected (CancellationError ''Operation was cancelled''))] else [])"
proof (induction qs arbitrary: s)
  case Nil
  then show ?case by simp
next
  case (Cons q qs)
  show ?case
  proof (cases "q \<in> set (queue s)")
    case False
    then have same: "cancelCallback s q = s" by (simp add: cancelCallback_def)
    show ?thesis
      using Cons.IH[OF Cons.prems] False by (auto simp: same)
  next
    case True
    let ?s' = "cancelCallback s q"
    have dq: "distinct (queue s)" using Cons.prems by (simp add: distinct_map)
    have q': "queue ?s' = remove1 q (queue s)"
      using True by (simp add: cancelCallback_def)
    have "remove1 q (queue s) = filter (\<lambda>x. q \<noteq> x) (queue s)"
      using dq by (simp add: distinct_remove1_removeAll removeAll_filter_not_eq)
    then have d': "distinct (map op_id (queue ?s'))"
      using Cons.prems by (simp add: q' distinct_map_filter)
    have st: "settlements ?s'
        = settlements s @ [(op_id q, Rejected (CancellationError ''Operation was cancelled''))]"
      using True by (simp add: cancelCallback_def)
    have setq: "set (queue ?s') = set (queue s) - {q}"
      using dq by (simp add: q')
    note ih = Cons.IH[OF d']
    show ?thesis
    proof (cases "op_id q = i")
      case same: True
      have none: "\<not> (\<exists>p \<in> set qs. p \<in> set (queue ?s') \<and> op_id p = i)"
        using distinct_op_id_eq[OF Cons.prems _ True] same by (auto simp: setq)
      show ?thesis
        using ih none True same by (simp add: st)
    next
      case other: False
      have "(\<exists>p \<in> set qs. p \<in> set (queue ?s') \<and> op_id p = i)
          = (\<exists>p \<in> set (q # qs). p \<in> set (queue s) \<and> op_id p = i)"
        using other by (auto simp: setq)
      then show ?thesis
        using ih other by (simp add: st)
    qed
  qed
qed

lemma inv_cancelToken: "limiter_inv s \<Longrightarrow> limiter_inv (cancelToken k s)"
proof (cases "k \<in> set (cancelledTokens s)")
  case True
  assume "limiter_inv s"
  then show ?thesis using True by (simp add: cancelToken_def)
next
  case False
  assume h: "limiter_inv s"
  let ?s1 = "s\<lparr>cancelledTokens := k # cancelledTokens s\<rparr>"
  let ?qs = "map snd (filter (\<lambda>cb. fst cb = k) (cancelCallbacks s))"
  let ?s2 = "foldl cancelCallback ?s1 ?qs"
  have dq: "distinct (queue ?s1)" using distinct_queue[OF h] by simp
  have queue2: "queue ?s2 = filter (\<lambda>q. q \<notin> set ?qs) (queue s)"
    using foldl_cancelCallback_queue[OF dq, of ?qs] by simp
  have set2: "fst ` set (settlements ?s2)
      \<subseteq> fst ` set (settlements s) \<union> op_id ` (set ?qs \<inter> set (queue s))"
    using foldl_cancelCallback_settled_ids[of ?s1 ?qs] by simp
  have dm: "distinct (map op_id (queue s))" using h by (simp add: limiter_inv_def)
  have res: "cancelToken k s = ?s2\<lparr>cancelCallbacks := filter (\<lambda>cb. fst cb \<noteq> k) (cancelCallbacks ?s2)\<rparr>"
    using False by (simp add: cancelToken_def Let_def)
  have "limiter_inv (?s2\<lparr>cancelCallbacks := filter (\<lambda>cb. fst cb \<noteq> k) (cancelCallbacks ?s2)\<rparr>)"
    unfolding limiter_inv_def list_all_iff
  proof (intro conjI ballI)
    show "distinct (map op_id (queue (?s2\<lparr>cancelCallbacks := filter (\<lambda>cb. fst cb \<noteq> k) (cancelCallbacks ?s2)\<rparr>)))"
      using dm by (simp add: queue2 distinct_map_filter)
  next
    fix q
    assume "q \<in> set (queue (?s2\<lparr>cancelCallbacks := filter (\<lambda>cb. fst cb \<noteq> k) (cancelCallbacks ?s2)\<rparr>))"
    then have qin: "q \<in> set (queue s)" and qnot: "q \<notin> set ?qs"
      by (simp_all add: queue2)
    have ok: "queuedOk s q" using h qin by (simp add: limiter_inv_def list_all_iff)
    have unsettled: "op_id q \<notin> fst ` set (settlements ?s2)"
    proof
      assume "op_id q \<in> fst ` set (settlements ?s2)"
      with set2 ok have "op_id q \<in> op_id ` (set ?qs \<inter> set (queue s))"
        by (auto simp: queuedOk_def)
      then obtain p where pi: "op_id q = op_id p" "p \<in> set ?qs \<inter> set (queue s)"
        by (rule imageE)
      then have p: "p \<in> set ?qs" "p \<in> set (queue s)" "op_id p = op_id q" by simp_all
      with distinct_op_id_eq[OF dm p(2) qin] have "p = q" by simp
      with p(1) qnot show False by simp
    qed
    have tok: "case op_token q of
          None \<Rightarrow> True
        | Some k' \<Rightarrow> k' \<notin> set (k # cancelledTokens s)
                     \<and> (k', q) \<in> set (filter (\<lambda>cb. fst cb \<noteq> k) (cancelCallbacks s))"
    proof (cases "op_token q")
      case None
      then show ?thesis by simp
    next
      case (Some k')
      have reg: "k' \<notin> set (cancelledTokens s) \<and> (k', q) \<in> set (cancelCallbacks s)"
        using ok Some by (simp add: queuedOk_def)
      have "k' \<noteq> k"
      proof
        assume "k' = k"
        with reg have "q \<in> set ?qs" by force
        with qnot show False by simp
      qed
      with reg Some show ?thesis by simp
    qed
    show "queuedOk (?s2\<lparr>cancelCallbacks := filter (\<lambda>cb. fst cb \<noteq> k) (cancelCallbacks ?s2)\<rparr>) q"
      using ok unsettled tok by (auto simp: queuedOk_def split: option.splits)
  next
    fix i
    assume "i \<in> set (invokedOps (?s2\<lparr>cancelCallbacks := filter (\<lambda>cb. fst cb \<noteq> k) (cancelCallbacks ?s2)\<rparr>))"
    then show "i < nextOp (?s2\<lparr>cancelCallbacks := filter (\<lambda>cb. fst cb \<noteq> k) (cancelCallbacks ?s2)\<rparr>)"
      using h by (simp add: limiter_inv_def list_all_iff)
  next
    fix x
    assume "x \<in> set (settlements (?s2\<lparr>cancelCallbacks := filter (\<lambda>cb. fst cb \<noteq> k) (cancelCallbacks ?s2)\<rparr>))"
    then have "fst x \<in> fst ` set (settlements ?s2)" by simp
    with set2 have "fst x \<in> fst ` set (settlements s) \<or> fst x \<in> op_id ` set (queue s)" by auto
    then show "fst x < nextOp (?s2\<lparr>cancelCallbacks := filter (\<lambda>cb. fst cb \<noteq> k) (cancelCallbacks ?s2)\<rparr>)"
      using h by (auto simp: limiter_inv_def list_all_iff queuedOk_def)
  next
    fix i
    assume "i \<in> set (inFlight (?s2\<lparr>cancelCallbacks := filter (\<lambda>cb. fst cb \<noteq> k) (cancelCallbacks ?s2)\<rparr>))"
    then show "i \<in> set (invokedOps (?s2\<lparr>cancelCallbacks := filter (\<lambda>cb. fst cb \<noteq> k) (cancelCallbacks ?s2)\<rparr>))"
      using h by (simp add: limiter_inv_def list_all_iff)
  qed
  with res show ?thesis by simp
qed

lemma inv_step: "limiter_inv s \<Longrightarrow> limiter_inv (limiter_step s ev)"
  by (cases ev) (simp_all add: inv_execute inv_operationSettles inv_cancelToken)

lemma inv_run: "limiter_inv s \<Longrightarrow> limiter_inv (limiter_run s evs)"
  unfolding limiter_run_def by (induction evs arbitrary: s) (simp_all add: inv_step)

lemma inv_new: "limiter_inv (newConcurrencyLimiter cfg)"
  by (simp add: limiter_inv_def newConcurrencyLimiter_def)

lemma dead_step: "limiter_inv s \<Longrightarrow> dead i s \<Longrightarrow> dead i (limiter_step s ev)"
  by (cases ev)
     (simp_all add: dead_execute dead_operationSettles dead_cancelToken distinct_queue)

lemma dead_run: "limiter_inv s \<Longrightarrow> dead i s \<Longrightarrow> dead i (limiter_run s evs)"
  unfolding limiter_run_def
  by (induction evs arbitrary: s) (simp_all add: dead_step inv_step)

text \<open>
  The check of the token comes first in \<open>execute\<close>: on a limiter with
  \<open>maxConcurrent = 1\<close> and \<open>queueLimit = 1\<close>, with one operation running and one
  queued, a call whose token is already cancelled is rejected with a \<open>CancellationError\<close>
  before the queue is looked at.
\<close>

lemma limiter_full_cancelled_token:
  "running (limiter_run (newConcurrencyLimiter \<lparr>maxConcurrent = 1, queueLimit = 1\<rparr> :: nat ConcurrencyLimiter)
      [Execute None, Execute None, CancelToken 0]) = 1
   \<and> length (queue (limiter_run (newConcurrencyLimiter \<lparr>maxConcurrent = 1, queueLimit = 1\<rparr> :: nat ConcurrencyLimiter)
      [Execute None, Execute None, CancelToken 0])) = 1
   \<and> settlements (execute (Some 0)
        (limiter_run (newConcurrencyLimiter \<lparr>maxConcurrent = 1, queueLimit = 1\<rparr> :: nat ConcurrencyLimiter)
          [Execute None, Execute None, CancelToken 0]))
      = [(2, Rejected (CancellationError ''Operation was cancelled''))]"
  by (simp add: limiter_run_def execute_def executeImmediate.simps processQueue.simps
      cancelToken_def tokenIsCancelled_def settle_def newConcurrencyLimiter_def Let_def)

text \<open>
  Claim C6. In every state that a new limiter reaches: a call of \<open>execute\<close> (with no
  token, or with a token that is not cancelled at the call), made when \<open>running\<close> is not
  below \<open>maxConcurrent\<close> and the queue holds \<open>queueLimit\<close> entries or more, rejects with
  the queue-full error, leaves the queue as it is and never has its operation called,
  whatever happens later; and when the token of a queued operation is cancelled, the
  operation leaves the queue, the only settlement of its promise is the rejection with
  \<open>CancellationError\<close>, and its function is never called, whatever happens later.
\<close>

theorem limiter_queue_full_and_cancel:
  "(\<not> tokenIsCancelled tok (limiter_run (newConcurrencyLimiter cfg) evs)
      \<and> \<not> int (running (limiter_run (newConcurrencyLimiter cfg) evs))
            < maxConcurrent (limiterConfig (limiter_run (newConcurrencyLimiter cfg) evs))
      \<and> queueLimit (limiterConfig (limiter_run (newConcurrencyLimiter cfg) evs))
            \<le> int (length (queue (limiter_run (newConcurrencyLimiter cfg) evs)))
    \<longrightarrow> settlements (execute tok (limiter_run (newConcurrencyLimiter cfg) evs))
          = settlements (limiter_run (newConcurrencyLimiter cfg) evs)
            @ [(nextOp (limiter_run (newConcurrencyLimiter cfg) evs),
                Rejected (Error ''Concurrency queue is full''))]
        \<and> queue (execute tok (limiter_run (newConcurrencyLimiter cfg) evs))
          = queue (limiter_run (newConcurrencyLimiter cfg) evs)
        \<and> nextOp (limiter_run (newConcurrencyLimiter cfg) evs)
          \<notin> set (invokedOps (limiter_run
                  (execute tok (limiter_run (newConcurrencyLimiter cfg) evs)) later)))
   \<and> (q \<in> set (queue (limiter_run (newConcurrencyLimiter cfg) evs)) \<and> op_token q = Some k
    \<longrightarrow> q \<notin> set (queue (cancelToken k (limiter_run (newConcurrencyLimiter cfg) evs)))
        \<and> filter (\<lambda>x. fst x = op_id q)
             (settlements (cancelToken k (limiter_run (newConcurrencyLimiter cfg) evs)))
          = [(op_id q, Rejected (CancellationError ''Operation was cancelled''))]
        \<and> op_id q \<notin> set (invokedOps (limiter_run
                  (cancelToken k (limiter_run (newConcurrencyLimiter cfg) evs)) later)))"
proof -
  define s :: "'a ConcurrencyLimiter" where "s = limiter_run (newConcurrencyLimiter cfg) evs"
  have inv: "limiter_inv s"
    unfolding s_def by (intro inv_run inv_new)
  note fresh = inv_ids_below[OF inv]
  have A: "settlements (execute tok s)
          = settlements s @ [(nextOp s, Rejected (Error ''Concurrency queue is full''))]
        \<and> queue (execute tok s) = queue s
        \<and> nextOp s \<notin> set (invokedOps (limiter_run (execute tok s) later))"
    if h: "\<not> tokenIsCancelled tok s \<and> \<not> int (running s) < maxConcurrent (limiterConfig s)
        \<and> queueLimit (limiterConfig s) \<le> int (length (queue s))"
  proof -
    have ex: "execute tok s
        = settle (nextOp s) (Rejected (Error ''Concurrency queue is full'')) (s\<lparr>nextOp := nextOp s + 1\<rparr>)"
      using h by (simp add: execute_def Let_def)
    have d: "dead (nextOp s) (execute tok s)"
      using fresh by (simp add: ex dead_def)
    have "dead (nextOp s) (limiter_run (execute tok s) later)"
      using inv_execute[OF inv] d by (rule dead_run)
    then show ?thesis by (simp add: ex dead_def)
  qed
  have B: "q \<notin> set (queue (cancelToken k s))
        \<and> filter (\<lambda>x. fst x = op_id q) (settlements (cancelToken k s))
          = [(op_id q, Rejected (CancellationError ''Operation was cancelled''))]
        \<and> op_id q \<notin> set (invokedOps (limiter_run (cancelToken k s) later))"
    if h: "q \<in> set (queue s) \<and> op_token q = Some k"
  proof -
    have ok: "queuedOk s q"
      using inv h by (simp add: limiter_inv_def list_all_iff)
    have nk: "k \<notin> set (cancelledTokens s)" and reg: "(k, q) \<in> set (cancelCallbacks s)"
      and unsettled: "op_id q \<notin> fst ` set (settlements s)"
      and uncalled: "op_id q \<notin> set (invokedOps s)" and below: "op_id q < nextOp s"
      using ok h by (simp_all add: queuedOk_def)
    let ?s1 = "s\<lparr>cancelledTokens := k # cancelledTokens s\<rparr>"
    let ?qs = "map snd (filter (\<lambda>cb. fst cb = k) (cancelCallbacks s))"
    let ?s2 = "foldl cancelCallback ?s1 ?qs"
    have res: "cancelToken k s = ?s2\<lparr>cancelCallbacks := filter (\<lambda>cb. fst cb \<noteq> k) (cancelCallbacks ?s2)\<rparr>"
      using nk by (simp add: cancelToken_def Let_def)
    have qin: "q \<in> set ?qs" using reg by force
    have dq: "distinct (queue ?s1)" using distinct_queue[OF inv] by simp
    have dm: "distinct (map op_id (queue ?s1))" using inv by (simp add: limiter_inv_def)
    have queue2: "queue ?s2 = filter (\<lambda>p. p \<notin> set ?qs) (queue s)"
      using foldl_cancelCallback_queue[OF dq, of ?qs] by simp
    have gone: "q \<notin> set (queue (cancelToken k s))"
      using qin by (simp add: res queue2)
    have none: "filter (\<lambda>x. fst x = op_id q) (settlements s) = []"
      using unsettled by (force simp: filter_empty_conv)
    have "filter (\<lambda>x. fst x = op_id q) (settlements ?s2)
        = filter (\<lambda>x. fst x = op_id q) (settlements ?s1)
          @ (if \<exists>p \<in> set ?qs. p \<in> set (queue ?s1) \<and> op_id p = op_id q
             then [(op_id q, Rejected (CancellationError ''Operation was cancelled''))] else [])"
      using dm by (rule foldl_cancelCallback_settlements_of)
    moreover have "\<exists>p \<in> set ?qs. p \<in> set (queue ?s1) \<and> op_id p = op_id q"
      using qin h by auto
    ultimately have one: "filter (\<lambda>x. fst x = op_id q) (settlements (cancelToken k s))
          = [(op_id q, Rejected (CancellationError ''Operation was cancelled''))]"
      using none by (simp add: res)
    have "op_id q \<notin> op_id ` set (queue (cancelToken k s))"
    proof
      assume "op_id q \<in> op_id ` set (queue (cancelToken k s))"
      then obtain p where p: "op_id q = op_id p" "p \<in> set (queue (cancelToken k s))"
        by (rule imageE)
      then have pin: "p \<in> set (queue s)" by (simp add: res queue2)
      have "p = q"
        using distinct_op_id_eq[of "queue s" p q] inv pin h p(1)
        by (simp add: limiter_inv_def)
      with p(2) gone show False by simp
    qed
    then have d: "dead (op_id q) (cancelToken k s)"
      using below uncalled by (simp add: dead_def res)
    have "dead (op_id q) (limiter_run (cancelToken k s) later)"
      using inv_cancelToken[OF inv] d by (rule dead_run)
    then show ?thesis using gone one by (simp add: dead_def)
  qed
  show ?thesis
    using A B unfolding s_def by blast
qed

theorem limiter_queue_full_and_cancel_witness:
  "settlements (execute None
      (limiter_run (newConcurrencyLimiter \<lparr>maxConcurrent = 1, queueLimit = 1\<rparr> :: nat ConcurrencyLimiter)
         [Execute None, Execute (Some 5)]))
     = [(2, Rejected (Error ''Concurrency queue is full''))]
   \<and> 2 \<notin> set (invokedOps (limiter_run (execute None
      (limiter_run (newConcurrencyLimiter \<lparr>maxConcurrent = 1, queueLimit = 1\<rparr> :: nat ConcurrencyLimiter)
         [Execute None, Execute (Some 5)])) [OperationSettles 0 (Resolves 7)]))
   \<and> \<lparr>op_id = 1, op_token = Some 5\<rparr>
       \<in> set (queue (limiter_run (newConcurrencyLimiter \<lparr>maxConcurrent = 1, queueLimit = 1\<rparr> :: nat ConcurrencyLimiter)
         [Execute None, Execute (Some 5)]))
   \<and> \<lparr>op_id = 1, op_token = Some 5\<rparr>
       \<notin> set (queue (cancelToken 5
            (limiter_run (newConcurrencyLimiter \<lparr>maxConcurrent = 1, queueLimit = 1\<rparr> :: nat ConcurrencyLimiter)
               [Execute None, Execute (Some 5)])))
   \<and> filter (\<lambda>x. fst x = 1) (settlements (cancelToken 5
        (limiter_run (newConcurrencyLimiter \<lparr>maxConcurrent = 1, queueLimit = 1\<rparr> :: nat ConcurrencyLimiter)
           [Execute None, Execute (Some 5)])))
      = [(1, Rejected (CancellationError ''Operation was cancelled''))]
   \<and> 1 \<notin> set (invokedOps (limiter_run (cancelToken 5
        (limiter_run (newConcurrencyLimiter \<lparr>maxConcurrent = 1, queueLimit = 1\<rparr> :: nat ConcurrencyLimiter)
           [Execute None, Execute (Some 5)])) [OperationSettles 0 (Resolves 7)]))"
proof -
  let ?cfg = "\<lparr>maxConcurrent = 1, queueLimit = 1\<rparr>"
  let ?evs = "[Execute None, Execute (Some 5)] :: nat limiter_event list"
  let ?later = "[OperationSettles 0 (Resolves 7)] :: nat limiter_event list"
  let ?q = "\<lparr>op_id = 1, op_token = Some 5\<rparr>"
  let ?S = "limiter_run (newConcurrencyLimiter ?cfg :: nat ConcurrencyLimiter) ?evs"
  have sval: "?S = \<lparr>limiterConfig = ?cfg, running = 1, queue = [?q], nextOp = 2, invokedOps = [0],
      inFlight = [0], settlements = [], cancelledTokens = [], cancelCallbacks = [(5, ?q)]\<rparr>"
    by (simp add: limiter_run_def execute_def executeImmediate.simps tokenIsCancelled_def
        newConcurrencyLimiter_def Let_def)
  have hA: "\<not> tokenIsCancelled None ?S
      \<and> \<not> int (running ?S) < maxConcurrent (limiterConfig ?S)
      \<and> queueLimit (limiterConfig ?S) \<le> int (length (queue ?S))"
    unfolding sval by (simp add: tokenIsCancelled_def)
  have hB: "?q \<in> set (queue ?S) \<and> op_token ?q = Some 5"
    unfolding sval by simp
  note t = limiter_queue_full_and_cancel[of None ?cfg ?evs ?later ?q 5]
  note a = t[THEN conjunct1, THEN mp, OF hA]
  note b = t[THEN conjunct2, THEN mp, OF hB]
  have a1: "settlements (execute None ?S) = [(2, Rejected (Error ''Concurrency queue is full''))]"
    using a[THEN conjunct1] unfolding sval by simp
  have a2: "2 \<notin> set (invokedOps (limiter_run (execute None ?S) ?later))"
    using a[THEN conjunct2, THEN conjunct2] unfolding sval by simp
  have b1: "?q \<notin> set (queue (cancelToken 5 ?S))"
    using b[THEN conjunct1] .
  have b2: "filter (\<lambda>x. fst x = 1) (settlements (cancelToken 5 ?S))
      = [(1, Rejected (CancellationError ''Operation was cancelled''))]"
    using b[THEN conjunct2, THEN conjunct1] by simp
  have b3: "1 \<notin> set (invokedOps (limiter_run (cancelToken 5 ?S) ?later))"
    using b[THEN conjunct2, THEN conjunct2] by simp
  from a1 a2 hB b1 b2 b3 show ?thesis by simp
qed

subsection \<open>Value smoother\<close>

text \<open>
  The part of claim C8 about the returned boolean holds on the code: \<open>shouldEmit\<close>
  returns \<open>true\<close> exactly when the emission is forced, no value is recorded yet, or the
  minimum interval has elapsed, and it then records the value and the time.
\<close>

lemma shouldEmit_true_iff:
  "fst (shouldEmit x force now s)
     = (force \<or> lastValue s = None \<or> minInterval s \<le> now - lastUpdate s)"
  by (simp add: shouldEmit_def Let_def)

lemma shouldEmit_records:
  "fst (shouldEmit x force now s) \<Longrightarrow>
   lastValue (snd (shouldEmit x force now s)) = Some x
   \<and> lastUpdate (snd (shouldEmit x force now s)) = now"
  by (auto simp: shouldEmit_def Let_def split: if_splits)

text \<open>
  Claim C8, evaluated on the code. A smoother at 5 Hz (minimum interval 200 ms) emits
  \<open>a\<close> at time 1000. The call with \<open>b\<close> at 1050 returns \<open>false\<close> and schedules the timer;
  the call with \<open>c\<close> at 1100 returns \<open>false\<close> and, a timer being pending, changes
  nothing: the timer's callback still closes over \<open>b\<close>. When the timer fires at 1200 the
  stored value is \<open>b\<close>, not the most recent value \<open>c\<close>.
\<close>

theorem valueSmoother_pending_value_stale:
  "fst (shouldEmit ''a'' False 1000 (newValueSmoother 5))
   \<and> \<not> fst (shouldEmit ''b'' False 1050 (snd (shouldEmit ''a'' False 1000 (newValueSmoother 5))))
   \<and> shouldEmit ''c'' False 1100
        (snd (shouldEmit ''b'' False 1050 (snd (shouldEmit ''a'' False 1000 (newValueSmoother 5)))))
      = (False, snd (shouldEmit ''b'' False 1050 (snd (shouldEmit ''a'' False 1000 (newValueSmoother 5)))))
   \<and> pendingTimeout
        (snd (shouldEmit ''c'' False 1100
          (snd (shouldEmit ''b'' False 1050 (snd (shouldEmit ''a'' False 1000 (newValueSmoother 5)))))))
      = Some \<lparr>capturedValue = ''b'', remainingTime = 150\<rparr>
   \<and> getLastValue (timerFires 1200
        (snd (shouldEmit ''c'' False 1100
          (snd (shouldEmit ''b'' False 1050 (snd (shouldEmit ''a'' False 1000 (newValueSmoother 5))))))))
      = Some ''b''"
  by (simp add: shouldEmit_def newValueSmoother_def timerFires_def getLastValue_def Let_def)

subsection \<open>Worker channel\<close>

text \<open>
  The parts of claim C9 that hold on the code: \<open>shutdown()\<close> on a running channel rejects
  every outstanding request with the shutdown error, empties the pending set and
  terminates the worker; after it, \<open>initialize\<close>, \<open>computeProgress\<close> and \<open>computeETA\<close>
  throw \<open>Worker is shutdown\<close> and leave the channel as it is.
\<close>

lemma shutdown_rejects_and_terminates:
  "\<not> isShutdown c \<Longrightarrow>
   rejections (shutdown post c)
     = rejections c @ map (\<lambda>i. (i, Error ''Worker is shutting down'')) (pendingRequests c)
   \<and> pendingRequests (shutdown post c) = []
   \<and> terminated (shutdown post c)
   \<and> isShutdown (shutdown post c)"
  by (simp add: shutdown_def sendMessage_def Let_def)

lemma calls_after_shutdown_fail:
  "isShutdown c \<Longrightarrow>
   initialize post c = (Inl (Error ''Worker is shutdown''), c)
   \<and> computeProgress post samples hz tc c = (Inl (Error ''Worker is shutdown''), c)
   \<and> computeETA post samples tc c = (Inl (Error ''Worker is shutdown''), c)"
  by (simp add: initialize_def computeProgress_def computeETA_def sendMessage_def)

text \<open>
  Claim C9, evaluated on the code: \<open>shutdown()\<close> never posts anything. It sets
  \<open>isShutdown\<close> before it calls \<open>sendMessage('SHUTDOWN', {})\<close>, whose first statement
  then throws \<open>Worker is shutdown\<close>; the error is swallowed. On a new channel with one
  outstanding \<open>computeProgress\<close> request, the messages posted before and after
  \<open>shutdown()\<close> are the same single \<open>COMPUTE_PROGRESS\<close> message.
\<close>

theorem shutdown_posts_no_SHUTDOWN:
  "posted (shutdown post c) = posted c
   \<and> posted (shutdown (\<lambda>m. None)
        (snd (computeProgress (\<lambda>m. None) [(0, 0.5)] 5 False newWorkerChannel)))
      = [\<lparr>msg_type = COMPUTE_PROGRESS, msg_id = ''1'', msg_data = ProgressRequest [(0, 0.5)] 5\<rparr>]
   \<and> rejections (shutdown (\<lambda>m. None)
        (snd (computeProgress (\<lambda>m. None) [(0, 0.5)] 5 False newWorkerChannel)))
      = [(''1'', Error ''Worker is shutting down'')]
   \<and> terminated (shutdown (\<lambda>m. None)
        (snd (computeProgress (\<lambda>m. None) [(0, 0.5)] 5 False newWorkerChannel)))"
  by (simp add: shutdown_def sendMessage_def computeProgress_def newWorkerChannel_def Let_def
      showNat.simps)

subsection \<open>WebSocket client\<close>

declare flushBufferedMessages.simps [simp del]

text \<open>Only \<open>send\<close> touches \<open>lastSeq\<close> and the list of constructed envelopes.\<close>

lemma setState_seq [simp]:
  "lastSeq (setState s c) = lastSeq c" "constructed (setState s c) = constructed c"
  by (simp_all add: setState_def)

lemma stopHeartbeat_seq [simp]:
  "lastSeq (stopHeartbeat c) = lastSeq c" "constructed (stopHeartbeat c) = constructed c"
  by (simp_all add: stopHeartbeat_def)

lemma startHeartbeat_seq [simp]:
  "lastSeq (startHeartbeat c) = lastSeq c" "constructed (startHeartbeat c) = constructed c"
  by (simp_all add: startHeartbeat_def split: option.splits)

lemma flushBufferedMessages_seq:
  "lastSeq (flushBufferedMessages stringify c) = lastSeq c
   \<and> constructed (flushBufferedMessages stringify c) = constructed c"
proof (induction stringify c rule: flushBufferedMessages.induct)
  case (1 stringify c)
  show ?case
  proof (cases "isEmpty (messageBuffer c)")
    case True
    then show ?thesis by (subst (1 2) flushBufferedMessages.simps) simp
  next
    case False
    obtain r b where d: "mb_dequeue (estimateSize stringify) (messageBuffer c) = (r, b)"
      by (cases "mb_dequeue (estimateSize stringify) (messageBuffer c)")
    show ?thesis
    proof (cases r)
      case None
      then show ?thesis
        using False d "1.IH"(1)[OF False d[symmetric] None]
        by (subst (1 2) flushBufferedMessages.simps) simp
    next
      case (Some message)
      note ds = d[symmetric]
      note rs = Some
      show ?thesis
      proof (cases "ws c")
        case None
        then show ?thesis
          using False d Some "1.IH"(2)[OF False ds rs None]
          by (subst (1 2) flushBufferedMessages.simps) simp
      next
        case (Some w)
        note w = this
        show ?thesis
        proof (cases "readyState w = OPEN")
          case notopen: False
          then show ?thesis
            using False d \<open>r = Some message\<close> w "1.IH"(4)[OF False ds rs w notopen]
            by (subst (1 2) flushBufferedMessages.simps) simp
        next
          case isopen: True
          show ?thesis
          proof (cases "stringify message")
            case None
            then show ?thesis
              using False d \<open>r = Some message\<close> w isopen
              by (subst (1 2) flushBufferedMessages.simps) simp
          next
            case (Some text')
            note tx = this
            show ?thesis
            proof (cases "ws_send text' w")
              case (Inl e)
              then show ?thesis
                using False d \<open>r = Some message\<close> w isopen tx
                by (subst (1 2) flushBufferedMessages.simps) simp
            next
              case (Inr w')
              then show ?thesis
                using False d \<open>r = Some message\<close> w isopen tx
                  "1.IH"(3)[OF False ds rs w isopen tx Inr]
                by (subst (1 2) flushBufferedMessages.simps) simp
            qed
          qed
        qed
      qed
    qed
  qed
qed

lemma send_constructed:
  "constructed (snd (send stringify ty d corr now c))
     = constructed c @ [\<lparr>env_v = 1, env_t = ty, env_seq = lastSeq c + 1, env_corr = corr,
                          env_t_wall = now, env_data = d\<rparr>]
   \<and> lastSeq (snd (send stringify ty d corr now c)) = lastSeq c + 1"
  by (simp add: send_def Let_def split: prod.splits option.splits sum.splits)

lemma seq_ok_send: "seq_ok c \<Longrightarrow> seq_ok (snd (send stringify ty d corr now c))"
  using send_constructed[of stringify ty d corr now c]
  by (auto simp: seq_ok_def sorted_wrt_append list_all_iff)

lemma seq_ok_cong:
  "lastSeq c' = lastSeq c \<Longrightarrow> constructed c' = constructed c \<Longrightarrow> seq_ok c \<Longrightarrow> seq_ok c'"
  by (simp add: seq_ok_def)

lemma seq_ok_step: "seq_ok c \<Longrightarrow> seq_ok (ws_step stringify c ev)"
proof (cases ev)
  case (Send ty d corr now)
  assume "seq_ok c"
  then show ?thesis using Send by (simp add: seq_ok_send)
next
  case Connect
  assume "seq_ok c"
  then show ?thesis using Connect
    by (auto elim!: seq_ok_cong[rotated 2] simp: connect_def attemptConnection_def Let_def)
next
  case Disconnect
  assume "seq_ok c"
  then show ?thesis using Disconnect
    by (auto elim!: seq_ok_cong[rotated 2]
        simp: disconnect_def clearTimers_def Let_def split: option.splits)
next
  case SocketOpen
  assume "seq_ok c"
  then show ?thesis using SocketOpen
    by (auto elim!: seq_ok_cong[rotated 2]
        simp: onopen_def flushBufferedMessages_seq Let_def split: option.splits)
next
  case SocketClose
  assume "seq_ok c"
  then show ?thesis using SocketClose
    by (auto elim!: seq_ok_cong[rotated 2] simp: onclose_def scheduleReconnect_def Let_def)
next
  case ReconnectTimer
  assume "seq_ok c"
  then show ?thesis using ReconnectTimer
    by (auto elim!: seq_ok_cong[rotated 2]
        simp: reconnectTimerFires_def attemptConnection_def Let_def)
next
  case (HeartbeatTimer d now)
  assume "seq_ok c"
  then show ?thesis using HeartbeatTimer by (simp add: seq_ok_send)
qed

lemma seq_ok_run: "seq_ok c \<Longrightarrow> seq_ok (ws_run stringify c evs)"
  unfolding ws_run_def by (induction evs arbitrary: c) (simp_all add: seq_ok_step)

text \<open>
  Claim C7: in every run of a new client the \<open>seq\<close> numbers of the envelopes that \<open>send\<close>
  constructs are strictly increasing (each \<open>send\<close> constructs one envelope, numbered
  \<open>lastSeq + 1\<close>); and a \<open>send\<close> in a state other than \<open>connected\<close> leaves the socket
  untouched, enqueues the envelope into the message buffer and returns the boolean that
  this enqueue returns.
\<close>

theorem wsClient_send_seq_and_buffering:
  "sorted_wrt (<) (map env_seq (constructed (ws_run stringify (newWSClient cfg) evs)))
   \<and> constructed (snd (send stringify ty d corr now c))
       = constructed c @ [\<lparr>env_v = 1, env_t = ty, env_seq = lastSeq c + 1, env_corr = corr,
                            env_t_wall = now, env_data = d\<rparr>]
   \<and> (state c \<noteq> Connected \<longrightarrow>
        fst (send stringify ty d corr now c)
          = fst (mb_enqueue (estimateSize stringify)
                  \<lparr>env_v = 1, env_t = ty, env_seq = lastSeq c + 1, env_corr = corr,
                   env_t_wall = now, env_data = d\<rparr> (messageBuffer c))
        \<and> messageBuffer (snd (send stringify ty d corr now c))
          = snd (mb_enqueue (estimateSize stringify)
                  \<lparr>env_v = 1, env_t = ty, env_seq = lastSeq c + 1, env_corr = corr,
                   env_t_wall = now, env_data = d\<rparr> (messageBuffer c))
        \<and> ws (snd (send stringify ty d corr now c)) = ws c)"
proof (intro conjI impI)
  have "seq_ok (newWSClient cfg :: 'a WSClient)"
    by (simp add: seq_ok_def newWSClient_def)
  then have "seq_ok (ws_run stringify (newWSClient cfg :: 'a WSClient) evs)"
    by (rule seq_ok_run)
  then show "sorted_wrt (<) (map env_seq (constructed (ws_run stringify (newWSClient cfg) evs)))"
    by (simp add: seq_ok_def)
next
  show "constructed (snd (send stringify ty d corr now c))
       = constructed c @ [\<lparr>env_v = 1, env_t = ty, env_seq = lastSeq c + 1, env_corr = corr,
                            env_t_wall = now, env_data = d\<rparr>]"
    using send_constructed[of stringify ty d corr now c] by simp
next
  assume "state c \<noteq> Connected"
  then show "fst (send stringify ty d corr now c)
          = fst (mb_enqueue (estimateSize stringify)
                  \<lparr>env_v = 1, env_t = ty, env_seq = lastSeq c + 1, env_corr = corr,
                   env_t_wall = now, env_data = d\<rparr> (messageBuffer c))"
    by (simp add: send_def Let_def split: prod.splits)
next
  assume "state c \<noteq> Connected"
  then show "messageBuffer (snd (send stringify ty d corr now c))
          = snd (mb_enqueue (estimateSize stringify)
                  \<lparr>env_v = 1, env_t = ty, env_seq = lastSeq c + 1, env_corr = corr,
                   env_t_wall = now, env_data = d\<rparr> (messageBuffer c))"
    by (simp add: send_def Let_def split: prod.splits)
next
  assume "state c \<noteq> Connected"
  then show "ws (snd (send stringify ty d corr now c)) = ws c"
    by (simp add: send_def Let_def split: prod.splits)
qed


theorem wsClient_send_seq_and_buffering_witness:
  "sorted_wrt (<) (map env_seq (constructed
      (ws_run (\<lambda>e. Some ''{}'')
         (newWSClient \<lparr>reconnect = True, maxReconnectAttempts = 10, heartbeatInterval = Some 30000,
                       maxMessageSize = None, maxBufferSize = None\<rparr>)
         [Send ''asr.partial'' (7::nat) None ''t1'', Connect, SocketOpen,
          Send ''asr.final'' 8 None ''t2''])))
   \<and> state (newWSClient \<lparr>reconnect = True, maxReconnectAttempts = 10, heartbeatInterval = Some 30000,
                       maxMessageSize = None, maxBufferSize = None\<rparr> :: nat WSClient) \<noteq> Connected
   \<and> fst (send (\<lambda>e. Some ''{}'') ''asr.partial'' (7::nat) None ''t1''
           (newWSClient \<lparr>reconnect = True, maxReconnectAttempts = 10, heartbeatInterval = Some 30000,
                       maxMessageSize = None, maxBufferSize = None\<rparr>)) = True
   \<and> items (messageBuffer (snd (send (\<lambda>e. Some ''{}'') ''asr.partial'' (7::nat) None ''t1''
           (newWSClient \<lparr>reconnect = True, maxReconnectAttempts = 10, heartbeatInterval = Some 30000,
                       maxMessageSize = None, maxBufferSize = None\<rparr>))))
       = [\<lparr>env_v = 1, env_t = ''asr.partial'', env_seq = 1, env_corr = None, env_t_wall = ''t1'',
           env_data = 7\<rparr>]
   \<and> ws (snd (send (\<lambda>e. Some ''{}'') ''asr.partial'' (7::nat) None ''t1''
           (newWSClient \<lparr>reconnect = True, maxReconnectAttempts = 10, heartbeatInterval = Some 30000,
                       maxMessageSize = None, maxBufferSize = None\<rparr>))) = None"
proof -
  let ?S = "\<lambda>e::nat WSEnvelope. Some ''{}''"
  let ?cfg = "\<lparr>reconnect = True, maxReconnectAttempts = 10, heartbeatInterval = Some 30000,
               maxMessageSize = None, maxBufferSize = None\<rparr>"
  let ?c = "newWSClient ?cfg :: nat WSClient"
  let ?evs = "[Send ''asr.partial'' (7::nat) None ''t1'', Connect, SocketOpen,
          Send ''asr.final'' 8 None ''t2'']"
  note t = wsClient_send_seq_and_buffering[of ?S ?cfg ?evs "''asr.partial''" 7 None "''t1''" ?c]
  have st: "state ?c \<noteq> Connected" by (simp add: newWSClient_def)
  have a: "sorted_wrt (<) (map env_seq (constructed (ws_run ?S ?c ?evs)))"
    using t by (rule conjunct1)
  note u = t[THEN conjunct2, THEN conjunct2, THEN mp, OF st]
  have b: "fst (send ?S ''asr.partial'' 7 None ''t1'' ?c) = True"
    using u[THEN conjunct1]
    by (simp add: newWSClient_def newMessageBuffer_def mb_enqueue_def enqueue_def
        estimateSize_def isEmpty_def)
  have c: "items (messageBuffer (snd (send ?S ''asr.partial'' 7 None ''t1'' ?c)))
       = [\<lparr>env_v = 1, env_t = ''asr.partial'', env_seq = 1, env_corr = None, env_t_wall = ''t1'',
           env_data = 7\<rparr>]"
    using u[THEN conjunct2, THEN conjunct1]
    by (simp add: newWSClient_def newMessageBuffer_def mb_enqueue_def enqueue_def
        estimateSize_def isEmpty_def)
  have d: "ws (snd (send ?S ''asr.partial'' 7 None ''t1'' ?c)) = None"
    using u[THEN conjunct2, THEN conjunct2] by (simp add: newWSClient_def)
  from a st b c d show ?thesis by simp
qed

end
